theory Spec2Isabelle
  imports Main "HOL-Library.AList"
begin

section \<open>Data model of the Queue class (src/index.ts, second revision)\<close>

text \<open>
  The class is an event emitter around a FIFO of task factories. Its methods are
  \<^verbatim>\<open>async\<close>: each runs synchronously up to its first \<^verbatim>\<open>await\<close> and is
  resumed later by the JavaScript run time (a promise settling, a timer firing). The
  model keeps the fields of the class as a record, the notifications passed to
  \<^verbatim>\<open>emit\<close> as a list in emission order, the calls suspended at an
  \<^verbatim>\<open>await\<close> as a list of continuations, and the value of \<^verbatim>\<open>Date.now()\<close>
  as a clock. Every method is a function from state to state; what the run time does
  (settling a promise, firing a timer, letting time pass) is an action of a step function.

  A factory is called inside \<^verbatim>\<open>try\<close>: it either returns a promise, which settles
  later, or throws at once, and then the \<^verbatim>\<open>catch\<close> branch runs inside the same call.
  Which of the two a call does is the factory's business; the state holds, for the calls
  to come and in their order, what each will do.
\<close>

datatype OnRejection = THROW | RETRY_THEN_THROW | IGNORE | RETRY_THEN_IGNORE

text \<open>A task factory \<^verbatim>\<open>() => Promise<T>\<close> is opaque: only its identity matters here.\<close>

type_synonym task = nat

record QueueItem =
  item_index :: nat
  item_fn :: task

record InputInfo =
  info_index :: nat
  info_startTime :: int
  info_fn :: task

text \<open>The object returned by \<^verbatim>\<open>retryCondition\<close>: \<^verbatim>\<open>{retry: boolean; interval?: number}\<close>.\<close>

record ShouldRetry =
  retry :: bool
  retry_interval :: "int option"

text \<open>\<^verbatim>\<open>QueueOptions\<close>: every field is optional.\<close>

record 'e QueueOptions =
  opt_interval :: "int option"
  opt_concurrent :: "int option"
  opt_start :: "bool option"
  opt_guaranteeOrder :: "bool option"
  opt_onRejection :: "OnRejection option"
  opt_retryIntervals :: "int list option"
  opt_alwaysRetry :: "bool option"
  opt_retryCondition :: "('e \<Rightarrow> ShouldRetry) option"

text \<open>\<^verbatim>\<open>QueueEvents\<close>: the notifications with their payloads.\<close>

datatype ('v, 'e) QueueEvent =
    Resolve 'v
  | Reject 'e InputInfo
  | Fail 'e
  | Start
  | Stop
  | End
  | Finish
  | PrepareRetry 'e "int option" InputInfo
  | Retry InputInfo
  | Dequeue InputInfo
  | Enqueue QueueItem

text \<open>
  The places where a call can be suspended:
  \<^item> \<open>AwaitDequeue info\<close>: in \<^verbatim>\<open>dequeue\<close>, at \<^verbatim>\<open>await promise()\<close>;
  \<^item> \<open>AwaitRetry info retryCount\<close>: in \<^verbatim>\<open>attemptRetry\<close>, at \<^verbatim>\<open>await inputInfo.fn()\<close>;
  \<^item> \<open>SleepContinue info due\<close>: in \<^verbatim>\<open>continue\<close>, at \<^verbatim>\<open>await sleep(...)\<close>, the timer due at \<open>due\<close>;
  \<^item> \<open>SleepRetry info retryCount due\<close>: in \<^verbatim>\<open>attemptRetry\<close>, at \<^verbatim>\<open>await sleep(retryIn)\<close>.
\<close>

datatype Suspended =
    AwaitDequeue InputInfo
  | AwaitRetry InputInfo nat
  | SleepContinue InputInfo int
  | SleepRetry InputInfo nat int

record ('v, 'e) Queue =
  interval :: int
  concurrent :: int
  startOnAdd :: bool
  guaranteeOrder :: bool
  onRejection :: OnRejection
  retryIntervals :: "int list"
  alwaysRetry :: bool
  retryCondition :: "('e \<Rightarrow> ShouldRetry) option"
  runningCount :: int
  queue :: "task list"
  resolveObject :: "(nat \<times> 'v \<times> InputInfo) list"
  rejectObject :: "(nat \<times> 'e) list"
  index :: nat
  completed :: nat
  isRunning :: bool
  emitted :: "('v, 'e) QueueEvent list"
  suspended :: "Suspended list"
  now :: int
  factory_throws :: "'e option list"

section \<open>JavaScript operators used by the class\<close>

text \<open>\<^verbatim>\<open>a ?? b\<close>: \<open>b\<close> when \<open>a\<close> is \<^verbatim>\<open>undefined\<close> or \<^verbatim>\<open>null\<close>.\<close>

definition nullish :: "'a option \<Rightarrow> 'a option \<Rightarrow> 'a option" where
  "nullish a b = (case a of Some x \<Rightarrow> Some x | None \<Rightarrow> b)"

definition nullish_default :: "'a option \<Rightarrow> 'a \<Rightarrow> 'a" where
  "nullish_default a d = (case a of Some x \<Rightarrow> x | None \<Rightarrow> d)"

text \<open>\<^verbatim>\<open>xs[i]\<close>: \<^verbatim>\<open>undefined\<close> outside the array, also at index \<open>-1\<close>.\<close>

definition js_index :: "'a list \<Rightarrow> int \<Rightarrow> 'a option" where
  "js_index xs i = (if 0 \<le> i \<and> i < int (length xs) then Some (xs ! nat i) else None)"

text \<open>\<^verbatim>\<open>setTimeout(resolve, ms)\<close>: a missing or negative delay fires as soon as possible.\<close>

definition timer_due :: "int \<Rightarrow> int option \<Rightarrow> int" where
  "timer_due t ms = t + max 0 (nullish_default ms 0)"

section \<open>The methods\<close>

definition constructor :: "'e QueueOptions option \<Rightarrow> ('v, 'e) Queue" where
  "constructor options =
     \<lparr> interval = nullish_default (Option.bind options opt_interval) 500,
       concurrent = nullish_default (Option.bind options opt_concurrent) 5,
       startOnAdd = nullish_default (Option.bind options opt_start) True,
       guaranteeOrder = nullish_default (Option.bind options opt_guaranteeOrder) True,
       onRejection = nullish_default (Option.bind options opt_onRejection) RETRY_THEN_THROW,
       retryIntervals = nullish_default (Option.bind options opt_retryIntervals)
                          [1000, 2000, 5000, 10000, 20000, 60000],
       alwaysRetry = nullish_default (Option.bind options opt_alwaysRetry) False,
       retryCondition = nullish (Option.bind options opt_retryCondition) None,
       runningCount = 0,
       queue = [],
       resolveObject = [],
       rejectObject = [],
       index = 0,
       completed = 0,
       isRunning = False,
       emitted = [],
       suspended = [],
       now = 0,
       factory_throws = [] \<rparr>"

definition emit :: "('v, 'e) Queue \<Rightarrow> ('v, 'e) QueueEvent \<Rightarrow> ('v, 'e) Queue" where
  "emit q ev = q\<lparr>emitted := emitted q @ [ev]\<rparr>"

text \<open>Reaching an \<^verbatim>\<open>await\<close>: the rest of the call is parked.\<close>

definition await :: "('v, 'e) Queue \<Rightarrow> Suspended \<Rightarrow> ('v, 'e) Queue" where
  "await q k = q\<lparr>suspended := suspended q @ [k]\<rparr>"

text \<open>
  Calling a factory: \<open>invoke_throws\<close> is the error it throws at once, if it does, and
  \<open>invoked\<close> the state after the call. A call for which nothing is listed returns a promise.
\<close>

definition invoke_throws :: "('v, 'e) Queue \<Rightarrow> 'e option" where
  "invoke_throws q = (case factory_throws q of [] \<Rightarrow> None | t # ts \<Rightarrow> t)"

definition invoked :: "('v, 'e) Queue \<Rightarrow> ('v, 'e) Queue" where
  "invoked q = q\<lparr>factory_throws := tl (factory_throws q)\<rparr>"

definition size_q :: "('v, 'e) Queue \<Rightarrow> nat" where
  "size_q q = length (queue q)"

definition isEmpty :: "('v, 'e) Queue \<Rightarrow> bool" where
  "isEmpty q = (size_q q = 0)"

definition shouldRun :: "('v, 'e) Queue \<Rightarrow> bool" where
  "shouldRun q = (runningCount q < concurrent q \<and> \<not> isEmpty q)"

definition started :: "('v, 'e) Queue \<Rightarrow> bool" where
  "started q = isRunning q"

definition stopped :: "('v, 'e) Queue \<Rightarrow> bool" where
  "stopped q = (\<not> startOnAdd q \<and> \<not> started q)"

definition end_q :: "('v, 'e) Queue \<Rightarrow> ('v, 'e) Queue" where
  "end_q q = (if started q then emit (q\<lparr>isRunning := False\<rparr>) End else q)"

definition fail :: "('v, 'e) Queue \<Rightarrow> 'e \<Rightarrow> ('v, 'e) Queue" where
  "fail q err = (if started q then end_q (emit q (Fail err)) else q)"

text \<open>
  \<^verbatim>\<open>continue\<close> up to its \<^verbatim>\<open>await sleep(Math.max(0, startTime + interval - Date.now()))\<close>;
  the rest of it, run when the timer fires, is \<open>continue_resume\<close> below.
\<close>

definition continue :: "('v, 'e) Queue \<Rightarrow> InputInfo \<Rightarrow> ('v, 'e) Queue" where
  "continue q inputInfo =
     (let q1 = q\<lparr>runningCount := runningCount q - 1\<rparr>
      in await q1 (SleepContinue inputInfo
           (timer_due (now q1) (Some (max 0 (info_startTime inputInfo + interval q1 - now q1))))))"

text \<open>
  The \<^verbatim>\<open>while\<close> loop of \<^verbatim>\<open>attemptEmit\<close>: it runs while either object has the key
  \<^verbatim>\<open>completed\<close>, and every iteration deletes that key from one of them.
\<close>

function attemptEmit_while :: "('v, 'e) Queue \<Rightarrow> ('v, 'e) Queue" where
  "attemptEmit_while q =
     (case map_of (resolveObject q) (completed q) of
        Some r \<Rightarrow>
          attemptEmit_while
            ((emit q (Resolve (fst r)))
               \<lparr>resolveObject := AList.delete (completed q) (resolveObject q),
                completed := completed q + 1\<rparr>)
      | None \<Rightarrow>
          (case map_of (rejectObject q) (completed q) of
             Some e \<Rightarrow>
               attemptEmit_while
                 (q\<lparr>rejectObject := AList.delete (completed q) (rejectObject q),
                    completed := completed q + 1\<rparr>)
           | None \<Rightarrow> q))"
  by pat_completeness auto

lemma length_delete_less:
  "map_of al k = Some v \<Longrightarrow> length (AList.delete k al) < length al"
  by (induction al) (auto simp: less_Suc_eq_le length_filter_le AList.delete_eq split: if_splits)

termination attemptEmit_while
  by (relation "measure (\<lambda>q. length (resolveObject q) + length (rejectObject q))")
     (auto simp: emit_def dest: length_delete_less)

declare attemptEmit_while.simps [simp del]

definition attemptEmit :: "('v, 'e) Queue \<Rightarrow> 'v \<Rightarrow> InputInfo \<Rightarrow> ('v, 'e) Queue" where
  "attemptEmit q res inputInfo =
     continue
       (if guaranteeOrder q
        then attemptEmit_while
               (q\<lparr>resolveObject :=
                    AList.update (info_index inputInfo) (res, inputInfo) (resolveObject q)\<rparr>)
        else emit q (Resolve res))
       inputInfo"

text \<open>The constant \<^verbatim>\<open>retryIn\<close> of \<^verbatim>\<open>attemptRetry\<close>.\<close>

definition retryIn :: "('v, 'e) Queue \<Rightarrow> int option \<Rightarrow> nat \<Rightarrow> int option" where
  "retryIn q ival retryCount =
     nullish ival
       (nullish (js_index (retryIntervals q) (int retryCount))
                (js_index (retryIntervals q) (int (length (retryIntervals q)) - 1)))"

text \<open>
  \<^verbatim>\<open>dequeue\<close>, \<^verbatim>\<open>rejectAndContinue\<close>, \<^verbatim>\<open>attemptRetry\<close> and \<^verbatim>\<open>handleRejection\<close> call
  one another: when the factory throws at once, \<^verbatim>\<open>dequeue\<close> handles the failure inside
  the same call, and a per-task rejection goes on to the next \<^verbatim>\<open>dequeue\<close>. Every such
  round takes one task off the pending queue. \<^verbatim>\<open>attemptRetry\<close> is cut at its
  \<^verbatim>\<open>await sleep(retryIn)\<close>; the rest of it is \<open>attemptRetry_resume\<close> below.
\<close>

function dequeue :: "('v, 'e) Queue \<Rightarrow> ('v, 'e) Queue"
  and rejectAndContinue :: "('v, 'e) Queue \<Rightarrow> 'e \<Rightarrow> InputInfo \<Rightarrow> ('v, 'e) Queue"
  and attemptRetry ::
    "('v, 'e) Queue \<Rightarrow> int option \<Rightarrow> nat \<Rightarrow> 'e \<Rightarrow> InputInfo \<Rightarrow> ('v, 'e) Queue"
  and handleRejection :: "('v, 'e) Queue \<Rightarrow> 'e \<Rightarrow> InputInfo \<Rightarrow> nat \<Rightarrow> ('v, 'e) Queue"
where
  "dequeue q =
     (case queue q of
        promise # rest \<Rightarrow>
          (let startTime = now q;
               q1 = q\<lparr>queue := rest\<rparr>;
               q2 = q1\<lparr>runningCount := runningCount q1 + 1\<rparr>;
               idx = index q2;
               q3 = q2\<lparr>index := index q2 + 1\<rparr>;
               inputInfo = \<lparr>info_index = idx, info_startTime = startTime, info_fn = promise\<rparr>;
               q4 = emit q3 (Dequeue inputInfo)
           in case invoke_throws q4 of
                None \<Rightarrow> await (invoked q4) (AwaitDequeue inputInfo)
              | Some err \<Rightarrow> handleRejection (invoked q4) err inputInfo 0)
      | [] \<Rightarrow> emit (end_q q) Finish)"
| "rejectAndContinue q err inputInfo =
     (let q1 = emit q (Reject err inputInfo);
          q2 = q1\<lparr>rejectObject := AList.update (info_index inputInfo) err (rejectObject q1)\<rparr>;
          q3 = q2\<lparr>runningCount := runningCount q2 - 1\<rparr>
      in dequeue q3)"
| "attemptRetry q ival retryCount err inputInfo =
     (if alwaysRetry q \<or> retryCount < length (retryIntervals q)
      then await (emit q (PrepareRetry err (retryIn q ival retryCount) inputInfo))
                 (SleepRetry inputInfo retryCount (timer_due (now q) (retryIn q ival retryCount)))
      else if onRejection q = RETRY_THEN_THROW then fail q err
      else rejectAndContinue q err inputInfo)"
| "handleRejection q err inputInfo retryCount =
     (case onRejection q of
        THROW \<Rightarrow> fail q err
      | RETRY_THEN_THROW \<Rightarrow>
          (let shouldRetry = map_option (\<lambda>f. f err) (retryCondition q)
           in if nullish_default (map_option retry shouldRetry) True
              then attemptRetry q (Option.bind shouldRetry retry_interval) retryCount err inputInfo
              else fail q err)
      | IGNORE \<Rightarrow> rejectAndContinue q err inputInfo
      | RETRY_THEN_IGNORE \<Rightarrow>
          (let shouldRetry = map_option (\<lambda>f. f err) (retryCondition q)
           in if nullish_default (map_option retry shouldRetry) True
              then attemptRetry q (Option.bind shouldRetry retry_interval) retryCount err inputInfo
              else rejectAndContinue q err inputInfo))"
  by pat_completeness auto

termination
  by (relation "measure (\<lambda>x. case x of
         Inl (Inl q) \<Rightarrow> 4 * length (queue q)
       | Inl (Inr (q, err, inputInfo)) \<Rightarrow> 4 * length (queue q) + 1
       | Inr (Inl (q, ival, retryCount, err, inputInfo)) \<Rightarrow> 4 * length (queue q) + 2
       | Inr (Inr (q, err, inputInfo, retryCount)) \<Rightarrow> 4 * length (queue q) + 3)")
     (auto simp: emit_def invoked_def)

declare dequeue.simps [simp del] rejectAndContinue.simps [simp del]
  attemptRetry.simps [simp del] handleRejection.simps [simp del]

definition continue_resume :: "('v, 'e) Queue \<Rightarrow> ('v, 'e) Queue" where
  "continue_resume q = (if started q then dequeue q else q)"

text \<open>
  The rest of \<^verbatim>\<open>attemptRetry\<close>, run when its timer fires: the retry notification, and the
  factory called again inside \<^verbatim>\<open>try\<close>.
\<close>

definition attemptRetry_resume :: "('v, 'e) Queue \<Rightarrow> InputInfo \<Rightarrow> nat \<Rightarrow> ('v, 'e) Queue" where
  "attemptRetry_resume q inputInfo retryCount =
     (let q1 = emit q (Retry inputInfo)
      in case invoke_throws q1 of
           None \<Rightarrow> await (invoked q1) (AwaitRetry inputInfo retryCount)
         | Some err \<Rightarrow> handleRejection (invoked q1) err inputInfo (retryCount + 1))"

text \<open>
  The four methods written out one step at a time. \<open>shifted\<close> is the state in which
  \<^verbatim>\<open>dequeue\<close> has taken the head of the queue, counted and numbered it, announced it and
  called its factory; \<open>rejected\<close> is the state in which \<^verbatim>\<open>rejectAndContinue\<close> calls
  \<^verbatim>\<open>dequeue\<close>.
\<close>

definition next_info :: "('v, 'e) Queue \<Rightarrow> task \<Rightarrow> InputInfo" where
  "next_info q promise = \<lparr>info_index = index q, info_startTime = now q, info_fn = promise\<rparr>"

definition shifted :: "('v, 'e) Queue \<Rightarrow> task \<Rightarrow> task list \<Rightarrow> ('v, 'e) Queue" where
  "shifted q promise rest =
     q\<lparr>queue := rest, runningCount := runningCount q + 1, index := index q + 1,
       emitted := emitted q @ [Dequeue (next_info q promise)],
       factory_throws := tl (factory_throws q)\<rparr>"

definition rejected :: "('v, 'e) Queue \<Rightarrow> 'e \<Rightarrow> InputInfo \<Rightarrow> ('v, 'e) Queue" where
  "rejected q err inputInfo =
     q\<lparr>emitted := emitted q @ [Reject err inputInfo],
       rejectObject := AList.update (info_index inputInfo) err (rejectObject q),
       runningCount := runningCount q - 1\<rparr>"

lemma dequeue_Nil: "queue q = [] \<Longrightarrow> dequeue q = emit (end_q q) Finish"
  by (subst dequeue.simps) simp

lemma dequeue_Cons:
  "queue q = promise # rest \<Longrightarrow>
   dequeue q =
     (case invoke_throws q of
        None \<Rightarrow> await (shifted q promise rest) (AwaitDequeue (next_info q promise))
      | Some err \<Rightarrow> handleRejection (shifted q promise rest) err (next_info q promise) 0)"
  by (subst dequeue.simps)
     (simp add: Let_def shifted_def next_info_def invoke_throws_def invoked_def emit_def
           split: option.splits)

lemma rejectAndContinue_cases:
  "rejectAndContinue q err inputInfo = dequeue (rejected q err inputInfo)"
  by (subst rejectAndContinue.simps) (simp add: Let_def emit_def rejected_def)

lemma fail_cases:
  "fail q err = (if started q then q\<lparr>isRunning := False, emitted := emitted q @ [Fail err, End]\<rparr>
                 else q)"
  by (simp add: fail_def end_q_def emit_def started_def)

text \<open>
  A relation between the state before and the state after that holds across each single
  step holds across the four methods.
\<close>

lemma methods_rel:
  assumes r: "\<And>q. Rel q q"
    and t: "\<And>a b c. Rel a b \<Longrightarrow> Rel b c \<Longrightarrow> Rel a c"
    and shift: "\<And>q promise rest. queue q = promise # rest \<Longrightarrow> Rel q (shifted q promise rest)"
    and park: "\<And>q k. Rel q (await q k)"
    and rej: "\<And>q err inputInfo. Rel q (rejected q err inputInfo)"
    and fl: "\<And>q err. Rel q (fail q err)"
    and fin: "\<And>q. Rel q (emit (end_q q) Finish)"
    and prep: "\<And>q err ms inputInfo. Rel q (emit q (PrepareRetry err ms inputInfo))"
  shows "Rel q (dequeue q)"
    and "Rel q (rejectAndContinue q err inputInfo)"
    and "Rel q (attemptRetry q ival retryCount err inputInfo)"
    and "Rel q (handleRejection q err inputInfo retryCount)"
proof (induction q and q err inputInfo and q ival retryCount err inputInfo
         and q err inputInfo retryCount
       rule: dequeue_rejectAndContinue_attemptRetry_handleRejection.induct)
  case (1 q)
  show ?case
  proof (cases "queue q")
    case Nil
    then show ?thesis by (simp add: dequeue_Nil fin)
  next
    case (Cons promise rest)
    show ?thesis
    proof (cases "invoke_throws q")
      case None
      with Cons t [OF shift [OF Cons] park] show ?thesis by (simp add: dequeue_Cons)
    next
      case (Some err)
      have "invoked (emit (q\<lparr>queue := rest, runningCount := runningCount q + 1,
                              index := index q + 1\<rparr>) (Dequeue (next_info q promise)))
            = shifted q promise rest"
        by (simp add: invoked_def emit_def shifted_def)
      with "1.IH" [OF Cons refl refl refl refl refl refl refl, of err] Some
      have "Rel (shifted q promise rest)
              (handleRejection (shifted q promise rest) err (next_info q promise) 0)"
        by (simp add: next_info_def invoke_throws_def emit_def)
      with Cons Some t [OF shift [OF Cons]] show ?thesis by (simp add: dequeue_Cons)
    qed
  qed
next
  case (2 q err inputInfo)
  from "2.IH" [OF refl refl refl]
  have "Rel (rejected q err inputInfo) (dequeue (rejected q err inputInfo))"
    by (simp add: rejected_def emit_def)
  with t [OF rej] show ?case by (simp add: rejectAndContinue_cases)
next
  case (3 q ival retryCount err inputInfo)
  show ?case
    using "3.IH" t [OF prep park] fl
    by (subst attemptRetry.simps) auto
next
  case (4 q err inputInfo retryCount)
  show ?case
    using "4.IH" fl
    by (subst handleRejection.simps) (auto simp: Let_def split: OnRejection.splits)
qed

text \<open>No method puts a task back: the calls above only shorten the pending queue.\<close>

lemma queue_shrinks:
  "length (queue (dequeue q)) \<le> length (queue q)"
  "length (queue (rejectAndContinue q err inputInfo)) \<le> length (queue q)"
  "length (queue (attemptRetry q ival retryCount err inputInfo)) \<le> length (queue q)"
  "length (queue (handleRejection q err inputInfo retryCount)) \<le> length (queue q)"
  by (rule methods_rel [where Rel = "\<lambda>a b. length (queue b) \<le> length (queue a)"];
      simp add: shifted_def await_def rejected_def fail_cases emit_def end_q_def)+

lemma dequeue_shrinks: "queue q \<noteq> [] \<Longrightarrow> length (queue (dequeue q)) < length (queue q)"
proof -
  assume "queue q \<noteq> []"
  then obtain promise rest where c: "queue q = promise # rest" by (cases "queue q") auto
  have "length (queue (shifted q promise rest)) = length rest" by (simp add: shifted_def)
  with queue_shrinks(4) [of "shifted q promise rest"] c show ?thesis
    by (auto simp: dequeue_Cons await_def split: option.splits intro: le_less_trans)
qed

text \<open>The \<^verbatim>\<open>while (this.shouldRun) this.dequeue()\<close> loop of \<^verbatim>\<open>start\<close>.\<close>

function start_while :: "('v, 'e) Queue \<Rightarrow> ('v, 'e) Queue" where
  "start_while q = (if shouldRun q then start_while (dequeue q) else q)"
  by pat_completeness auto
termination
proof (relation "measure (\<lambda>q. length (queue q))")
  fix q :: "('v, 'e) Queue"
  assume "shouldRun q"
  then have "queue q \<noteq> []" by (simp add: shouldRun_def isEmpty_def size_q_def)
  then show "(dequeue q, q) \<in> measure (\<lambda>q. length (queue q))"
    by (simp add: dequeue_shrinks)
qed simp

declare start_while.simps [simp del]

definition start :: "('v, 'e) Queue \<Rightarrow> ('v, 'e) Queue" where
  "start q = start_while (emit (q\<lparr>isRunning := True, startOnAdd := True\<rparr>) Start)"

definition stop :: "('v, 'e) Queue \<Rightarrow> ('v, 'e) Queue" where
  "stop q = end_q (emit (q\<lparr>startOnAdd := False\<rparr>) Stop)"

definition enqueue :: "('v, 'e) Queue \<Rightarrow> task \<Rightarrow> ('v, 'e) Queue" where
  "enqueue q promise =
     (let q1 = q\<lparr>queue := queue q @ [promise]\<rparr>;
          q2 = emit q1 (Enqueue \<lparr>item_index = length (queue q1) - 1, item_fn = promise\<rparr>)
      in if shouldRun q2 \<and> startOnAdd q2 then start q2 else q2)"

definition clear :: "('v, 'e) Queue \<Rightarrow> ('v, 'e) Queue" where
  "clear q =
     q\<lparr>queue := [], resolveObject := [], rejectObject := [], index := 0, completed := 0,
       isRunning := False, runningCount := 0\<rparr>"

section \<open>The run time: calls from the client, promises settling, timers, the clock\<close>

text \<open>
  Besides the client's calls: \<open>Settle n r\<close>, the promise awaited by the \<open>n\<close>-th suspended
  call settles; \<open>Timeout n\<close>, the timer of the \<open>n\<close>-th suspended call fires; \<open>Tick ms\<close>,
  time passes; \<open>Arrange throws\<close>, the factories fix what their coming calls will do at
  once (\<open>Some err\<close> throws \<open>err\<close>, \<open>None\<close> returns a promise), in the order of the calls.
\<close>

datatype ('v, 'e) Settled = Fulfilled 'v | Rejected 'e

datatype ('v, 'e) Action =
    CallEnqueue task
  | CallStart
  | CallStop
  | CallClear
  | CallDequeue
  | Settle nat "('v, 'e) Settled"
  | Timeout nat
  | Tick nat
  | Arrange "'e option list"

definition unpark :: "('v, 'e) Queue \<Rightarrow> nat \<Rightarrow> ('v, 'e) Queue" where
  "unpark q n = q\<lparr>suspended := take n (suspended q) @ drop (Suc n) (suspended q)\<rparr>"

text \<open>
  The promise awaited by the \<open>n\<close>-th suspended call settles: \<^verbatim>\<open>try { ...; attemptEmit }
  catch (err) { handleRejection }\<close>, with retry count 0 in \<^verbatim>\<open>dequeue\<close> and
  \<^verbatim>\<open>retryCount + 1\<close> in \<^verbatim>\<open>attemptRetry\<close>.
\<close>

definition settle ::
  "('v, 'e) Queue \<Rightarrow> nat \<Rightarrow> ('v, 'e) Settled \<Rightarrow> ('v, 'e) Queue option" where
  "settle q n r =
     (if n < length (suspended q) then
        (case (suspended q ! n, r) of
           (AwaitDequeue inputInfo, Fulfilled res) \<Rightarrow> Some (attemptEmit (unpark q n) res inputInfo)
         | (AwaitDequeue inputInfo, Rejected err) \<Rightarrow>
             Some (handleRejection (unpark q n) err inputInfo 0)
         | (AwaitRetry inputInfo retryCount, Fulfilled res) \<Rightarrow>
             Some (attemptEmit (unpark q n) res inputInfo)
         | (AwaitRetry inputInfo retryCount, Rejected err) \<Rightarrow>
             Some (handleRejection (unpark q n) err inputInfo (retryCount + 1))
         | _ \<Rightarrow> None)
      else None)"

text \<open>The timer of the \<open>n\<close>-th suspended call fires; it cannot fire before it is due.\<close>

definition timeout :: "('v, 'e) Queue \<Rightarrow> nat \<Rightarrow> ('v, 'e) Queue option" where
  "timeout q n =
     (if n < length (suspended q) then
        (case suspended q ! n of
           SleepContinue inputInfo due \<Rightarrow>
             (if due \<le> now q then Some (continue_resume (unpark q n)) else None)
         | SleepRetry inputInfo retryCount due \<Rightarrow>
             (if due \<le> now q then Some (attemptRetry_resume (unpark q n) inputInfo retryCount)
              else None)
         | _ \<Rightarrow> None)
      else None)"

definition step :: "('v, 'e) Queue \<Rightarrow> ('v, 'e) Action \<Rightarrow> ('v, 'e) Queue option" where
  "step q a =
     (case a of
        CallEnqueue promise \<Rightarrow> Some (enqueue q promise)
      | CallStart \<Rightarrow> Some (start q)
      | CallStop \<Rightarrow> Some (stop q)
      | CallClear \<Rightarrow> Some (clear q)
      | CallDequeue \<Rightarrow> Some (dequeue q)
      | Settle n r \<Rightarrow> settle q n r
      | Timeout n \<Rightarrow> timeout q n
      | Tick ms \<Rightarrow> Some (q\<lparr>now := now q + int ms\<rparr>)
      | Arrange throws \<Rightarrow> Some (q\<lparr>factory_throws := throws\<rparr>))"

fun run :: "('v, 'e) Queue \<Rightarrow> ('v, 'e) Action list \<Rightarrow> ('v, 'e) Queue option" where
  "run q [] = Some q"
| "run q (a # as) = (case step q a of None \<Rightarrow> None | Some q' \<Rightarrow> run q' as)"

section \<open>The configuration never changes\<close>

text \<open>
  The options resolved by the constructor are only read afterwards, \<^verbatim>\<open>startOnAdd\<close>
  apart, which \<^verbatim>\<open>start\<close> and \<^verbatim>\<open>stop\<close> assign.
\<close>

definition config ::
  "('v, 'e) Queue \<Rightarrow> int \<times> int \<times> bool \<times> OnRejection \<times> int list \<times> bool \<times> ('e \<Rightarrow> ShouldRetry) option" where
  "config q = (interval q, concurrent q, guaranteeOrder q, onRejection q, retryIntervals q,
               alwaysRetry q, retryCondition q)"

lemma config_emit [simp]: "config (emit q ev) = config q"
  by (simp add: config_def emit_def)

lemma config_await [simp]: "config (await q k) = config q"
  by (simp add: config_def await_def)

lemma config_unpark [simp]: "config (unpark q n) = config q"
  by (simp add: config_def unpark_def)

lemma config_end_q [simp]: "config (end_q q) = config q"
  by (simp add: end_q_def) (simp add: config_def)

lemma config_fail [simp]: "config (fail q err) = config q"
  by (simp add: fail_def)

lemma config_invoked [simp]: "config (invoked q) = config q"
  by (simp add: config_def invoked_def)

lemma config_methods [simp]:
  "config (dequeue q) = config q"
  "config (rejectAndContinue q err inputInfo) = config q"
  "config (attemptRetry q ival retryCount err inputInfo) = config q"
  "config (handleRejection q err inputInfo retryCount) = config q"
  by (rule methods_rel [where Rel = "\<lambda>a b. config b = config a"];
      simp add: config_def shifted_def rejected_def fail_cases emit_def end_q_def await_def)+

lemma config_continue [simp]: "config (continue q i) = config q"
  by (simp add: continue_def Let_def) (simp add: config_def)

lemma config_continue_resume [simp]: "config (continue_resume q) = config q"
  by (simp add: continue_resume_def)

lemma config_attemptEmit_while [simp]: "config (attemptEmit_while q) = config q"
proof (induction q rule: attemptEmit_while.induct)
  case (1 q)
  show ?case
  proof (cases "map_of (resolveObject q) (completed q)")
    case (Some r)
    then show ?thesis
      using "1.IH"(2) [OF Some] by (subst attemptEmit_while.simps) (simp add: config_def emit_def)
  next
    case None
    note rn = None
    show ?thesis
    proof (cases "map_of (rejectObject q) (completed q)")
      case None
      with rn show ?thesis by (subst attemptEmit_while.simps) simp
    next
      case (Some e)
      then show ?thesis
        using "1.IH"(1) [OF rn Some] rn by (subst attemptEmit_while.simps) (simp add: config_def)
    qed
  qed
qed

lemma config_attemptEmit [simp]: "config (attemptEmit q res i) = config q"
  by (simp add: attemptEmit_def) (simp add: config_def)

lemma config_attemptRetry_resume [simp]: "config (attemptRetry_resume q i rc) = config q"
  by (simp add: attemptRetry_resume_def Let_def split: option.splits)

lemma config_start_while [simp]: "config (start_while q) = config q"
proof (induction q rule: start_while.induct)
  case (1 q)
  then show ?case by (subst start_while.simps) simp
qed

lemma config_start [simp]: "config (start q) = config q"
  by (simp add: start_def) (simp add: config_def)

lemma config_stop [simp]: "config (stop q) = config q"
  by (simp add: stop_def) (simp add: config_def)

lemma config_enqueue [simp]: "config (enqueue q p) = config q"
  by (simp add: enqueue_def Let_def) (simp add: config_def)

lemma config_clear [simp]: "config (clear q) = config q"
  by (simp add: clear_def config_def)

lemma config_step: "step q a = Some q' \<Longrightarrow> config q' = config q"
  by (cases a)
     (auto simp: step_def settle_def timeout_def config_def [of "q\<lparr>now := _\<rparr>"]
                 config_def [of "q\<lparr>factory_throws := _\<rparr>"] config_def [of q]
           split: if_splits Suspended.splits Settled.splits prod.splits)

lemma config_run: "run q as = Some q' \<Longrightarrow> config q' = config q"
  by (induction as arbitrary: q) (auto split: option.splits dest: config_step)

section \<open>Runs\<close>

lemma run_append:
  "run q (as @ bs) = (case run q as of None \<Rightarrow> None | Some q' \<Rightarrow> run q' bs)"
  by (induction as arbitrary: q) (auto split: option.splits)

lemma invoked_nothing: "factory_throws q = [] \<Longrightarrow> invoked q = q"
  by (cases q) (simp add: invoked_def)

lemma invoke_throws_nothing: "factory_throws q = [] \<Longrightarrow> invoke_throws q = None"
  by (simp add: invoke_throws_def)

section \<open>Concrete schedulers used to exercise the theorems\<close>

text \<open>
  The options of the test suite's last group: concurrency 1, pacing 1 ms, ladder
  \<open>[1, 2, 3]\<close>, retry-then-ignore, no retry predicate.
\<close>

definition options_example :: "nat QueueOptions" where
  "options_example =
     \<lparr> opt_interval = Some 1, opt_concurrent = Some 1, opt_start = None,
       opt_guaranteeOrder = None, opt_onRejection = Some RETRY_THEN_IGNORE,
       opt_retryIntervals = Some [1, 2, 3], opt_alwaysRetry = None, opt_retryCondition = None \<rparr>"

definition queue_example :: "(nat, nat) Queue" where
  "queue_example = constructor (Some options_example)"

definition info_example :: InputInfo where
  "info_example = \<lparr>info_index = 0, info_startTime = 0, info_fn = 10\<rparr>"

section \<open>The public dequeue\<close>

text \<open>
  C9. Whenever the pending queue is not empty, \<^verbatim>\<open>dequeue()\<close> removes its head, gives it
  the next sequence number, increments the in-flight count, emits the dequeue notification
  and invokes the factory: if the factory returns a promise the call is suspended on it,
  and if it throws at once the failure is handled in the state so reached. Nothing in it
  reads \<^verbatim>\<open>shouldRun\<close>: when the in-flight count has already reached the concurrency
  limit and the factory returns a promise, the call takes the count above the limit.
\<close>

theorem dequeue_ignores_admission:
  assumes "queue q = promise # rest"
  shows "dequeue q =
           (let inputInfo = \<lparr>info_index = index q, info_startTime = now q, info_fn = promise\<rparr>;
                q4 = q\<lparr>queue := rest,
                       runningCount := runningCount q + 1,
                       index := index q + 1,
                       emitted := emitted q @ [Dequeue inputInfo],
                       factory_throws := tl (factory_throws q)\<rparr>
            in case invoke_throws q of
                 None \<Rightarrow> q4\<lparr>suspended := suspended q @ [AwaitDequeue inputInfo]\<rparr>
               | Some err \<Rightarrow> handleRejection q4 err inputInfo 0)
         \<and> (invoke_throws q = None \<and> concurrent q \<le> runningCount q \<longrightarrow>
              concurrent (dequeue q) < runningCount (dequeue q))"
  using assms
  by (simp add: dequeue_Cons shifted_def next_info_def await_def Let_def config_def
           split: option.splits)

text \<open>
  With concurrency 1, two enqueues leave one task in flight and one pending; the admission
  predicate is false, and a direct \<^verbatim>\<open>dequeue()\<close> starts the second task all the same.
\<close>

theorem dequeue_ignores_admission_witness:
  "queue (enqueue (enqueue queue_example 10) 11) = [11]
   \<and> runningCount (enqueue (enqueue queue_example 10) 11) = 1
   \<and> concurrent (enqueue (enqueue queue_example 10) 11) = 1
   \<and> \<not> shouldRun (enqueue (enqueue queue_example 10) 11)
   \<and> queue (dequeue (enqueue (enqueue queue_example 10) 11)) = []
   \<and> runningCount (dequeue (enqueue (enqueue queue_example 10) 11)) = 2
   \<and> index (dequeue (enqueue (enqueue queue_example 10) 11)) = 2"
proof -
  let ?q = "enqueue (enqueue queue_example 10) 11"
  have h: "queue ?q = 11 # []" by code_simp
  have r: "runningCount ?q = 1" by code_simp
  have c: "concurrent ?q = 1" by code_simp
  have i: "index ?q = 1" by code_simp
  have s: "\<not> shouldRun ?q" by code_simp
  have t: "invoke_throws ?q = None" by code_simp
  from dequeue_ignores_admission [OF h] t have
    "dequeue ?q = ?q\<lparr>queue := [], runningCount := runningCount ?q + 1, index := index ?q + 1,
       emitted := emitted ?q @
               [Dequeue \<lparr>info_index = index ?q, info_startTime = now ?q, info_fn = 11\<rparr>],
       factory_throws := tl (factory_throws ?q),
       suspended := suspended ?q @
               [AwaitDequeue \<lparr>info_index = index ?q, info_startTime = now ?q, info_fn = 11\<rparr>]\<rparr>"
    by (simp add: Let_def)
  then have "queue (dequeue ?q) = [] \<and> runningCount (dequeue ?q) = runningCount ?q + 1
      \<and> index (dequeue ?q) = index ?q + 1"
    by simp
  with h r c i s show ?thesis by simp
qed

section \<open>The retry decision\<close>

text \<open>
  C4. Under retry-then-fail and retry-then-ignore, when no retry predicate is configured,
  \<^verbatim>\<open>shouldRetry\<close> is \<^verbatim>\<open>undefined\<close>, \<^verbatim>\<open>shouldRetry?.retry ?? true\<close> is true and the
  override interval is absent: \<^verbatim>\<open>handleRejection\<close> goes to \<^verbatim>\<open>attemptRetry\<close>. Within
  the ladder (or with always-retry) the terminal outcome is not taken: the retry is
  announced and the call sleeps for the ladder's wait; once that time has passed and the
  timer fires, the retry notification is emitted and the factory is called again, so that
  either the task is in flight once more, awaiting the new promise under the same attempt
  count, or, if the factory throws at once, that failure is handled with the attempt count
  incremented.
\<close>

theorem default_retry_decision:
  assumes "retryCondition q = None"
    and "onRejection q = RETRY_THEN_THROW \<or> onRejection q = RETRY_THEN_IGNORE"
  shows "handleRejection q err inputInfo retryCount = attemptRetry q None retryCount err inputInfo
         \<and> (alwaysRetry q \<or> retryCount < length (retryIntervals q) \<longrightarrow>
              handleRejection q err inputInfo retryCount =
                await (emit q (PrepareRetry err (retryIn q None retryCount) inputInfo))
                      (SleepRetry inputInfo retryCount
                         (timer_due (now q) (retryIn q None retryCount)))
              \<and> run (handleRejection q err inputInfo retryCount)
                    [Tick (nat (nullish_default (retryIn q None retryCount) 0)),
                     Timeout (length (suspended q))] =
                  Some
                    (let q1 = q\<lparr>emitted := emitted q @
                                   [PrepareRetry err (retryIn q None retryCount) inputInfo,
                                    Retry inputInfo],
                                 now := now q +
                                   int (nat (nullish_default (retryIn q None retryCount) 0)),
                                 factory_throws := tl (factory_throws q)\<rparr>
                     in case invoke_throws q of
                          None \<Rightarrow>
                            q1\<lparr>suspended := suspended q @ [AwaitRetry inputInfo retryCount]\<rparr>
                        | Some err' \<Rightarrow> handleRejection q1 err' inputInfo (retryCount + 1)))"
proof -
  let ?ms = "retryIn q None retryCount"
  let ?d = "nat (nullish_default ?ms 0)"
  let ?q1 = "await (emit q (PrepareRetry err ?ms inputInfo))
                   (SleepRetry inputInfo retryCount (timer_due (now q) ?ms))"
  have h: "handleRejection q err inputInfo retryCount =
             attemptRetry q None retryCount err inputInfo"
    using assms by (auto simp: handleRejection.simps nullish_default_def)
  have a: "attemptRetry q None retryCount err inputInfo = ?q1"
    if "alwaysRetry q \<or> retryCount < length (retryIntervals q)"
    using that by (subst attemptRetry.simps) simp
  let ?q2 = "?q1\<lparr>now := now q + int ?d\<rparr>"
  have 1: "step ?q1 (Tick ?d) = Some ?q2"
    by (simp add: step_def await_def emit_def)
  have "unpark ?q2 (length (suspended q)) =
          q\<lparr>emitted := emitted q @ [PrepareRetry err ?ms inputInfo], now := now q + int ?d\<rparr>"
    by (simp add: unpark_def await_def emit_def)
  then have 2: "step ?q2 (Timeout (length (suspended q))) =
             Some (attemptRetry_resume
                     (q\<lparr>emitted := emitted q @ [PrepareRetry err ?ms inputInfo],
                        now := now q + int ?d\<rparr>) inputInfo retryCount)"
    by (simp add: step_def timeout_def await_def emit_def timer_due_def)
  let ?q3 = "q\<lparr>emitted := emitted q @ [PrepareRetry err ?ms inputInfo],
                now := now q + int ?d\<rparr>"
  have st: "invoked (emit ?q3 (Retry inputInfo)) =
              q\<lparr>emitted := emitted q @ [PrepareRetry err ?ms inputInfo, Retry inputInfo],
                now := now q + int ?d,
                factory_throws := tl (factory_throws q)\<rparr>"
    by (simp add: invoked_def emit_def)
  have it: "invoke_throws (emit ?q3 (Retry inputInfo)) = invoke_throws q"
    by (simp add: invoke_throws_def emit_def)
  have 3: "attemptRetry_resume ?q3 inputInfo retryCount =
           (let q1 = q\<lparr>emitted := emitted q @ [PrepareRetry err ?ms inputInfo, Retry inputInfo],
                        now := now q + int ?d,
                        factory_throws := tl (factory_throws q)\<rparr>
            in case invoke_throws q of
                 None \<Rightarrow> q1\<lparr>suspended := suspended q @ [AwaitRetry inputInfo retryCount]\<rparr>
               | Some err' \<Rightarrow> handleRejection q1 err' inputInfo (retryCount + 1))"
    unfolding attemptRetry_resume_def Let_def st it
    by (cases "invoke_throws q") (simp_all add: await_def)
  from 1 2 have "run ?q1 [Tick ?d, Timeout (length (suspended q))] =
          Some (attemptRetry_resume
                     (q\<lparr>emitted := emitted q @ [PrepareRetry err ?ms inputInfo],
                        now := now q + int ?d\<rparr>) inputInfo retryCount)"
    by simp
  then have "run ?q1 [Tick ?d, Timeout (length (suspended q))] =
           Some (let q1 = q\<lparr>emitted := emitted q @
                                 [PrepareRetry err ?ms inputInfo, Retry inputInfo],
                        now := now q + int ?d,
                        factory_throws := tl (factory_throws q)\<rparr>
            in case invoke_throws q of
                 None \<Rightarrow> q1\<lparr>suspended := suspended q @ [AwaitRetry inputInfo retryCount]\<rparr>
               | Some err' \<Rightarrow> handleRejection q1 err' inputInfo (retryCount + 1))"
    unfolding 3 .
  with h a show ?thesis by simp
qed

text \<open>
  The first task of a scheduler over the ladder \<open>[1, 2, 3]\<close> rejects. It is announced for a
  retry in 1 ms and, when the timer fires, retried: it is in flight again.
\<close>

theorem default_retry_decision_witness:
  "map_option (\<lambda>q. (emitted q, suspended q))
     (run queue_example [CallEnqueue 10, Settle 0 (Rejected 99), Tick 1, Timeout 0])
   = Some ([Enqueue \<lparr>item_index = 0, item_fn = 10\<rparr>, Start, Dequeue info_example,
            PrepareRetry 99 (Some 1) info_example, Retry info_example],
           [AwaitRetry info_example 0])"
proof -
  let ?q = "unpark (enqueue queue_example 10) 0"
  have c: "retryCondition ?q = None" by code_simp
  have p: "onRejection ?q = RETRY_THEN_IGNORE" by code_simp
  have l: "retryIntervals ?q = [1, 2, 3]" by code_simp
  have s: "suspended (enqueue queue_example 10) = [AwaitDequeue info_example]" by code_simp
  have u: "suspended ?q = []" by code_simp
  have e: "emitted ?q = [Enqueue \<lparr>item_index = 0, item_fn = 10\<rparr>, Start, Dequeue info_example]"
    by code_simp
  have t: "invoke_throws ?q = None" by code_simp
  have r: "retryIn ?q None 0 = Some 1" by code_simp
  have 1: "run queue_example [CallEnqueue 10, Settle 0 (Rejected 99)] =
             Some (handleRejection ?q 99 info_example 0)"
    using s by (simp add: step_def settle_def)
  have w: "alwaysRetry ?q \<or> 0 < length (retryIntervals ?q)" using l by simp
  from default_retry_decision [OF c disjI2 [OF p], of 99 info_example 0] w
  have "run (handleRejection ?q 99 info_example 0)
          [Tick (nat (nullish_default (retryIn ?q None 0) 0)), Timeout (length (suspended ?q))] =
        Some
          (let q1 = ?q\<lparr>emitted := emitted ?q @
                              [PrepareRetry 99 (retryIn ?q None 0) info_example,
                               Retry info_example],
                            now := now ?q + int (nat (nullish_default (retryIn ?q None 0) 0)),
                            factory_throws := tl (factory_throws ?q)\<rparr>
           in case invoke_throws ?q of
                None \<Rightarrow> q1\<lparr>suspended := suspended ?q @ [AwaitRetry info_example 0]\<rparr>
              | Some err' \<Rightarrow> handleRejection q1 err' info_example (0 + 1))"
    by blast
  then have 2: "run (handleRejection ?q 99 info_example 0) [Tick 1, Timeout 0] =
             Some (?q\<lparr>emitted := emitted ?q @
                                   [PrepareRetry 99 (Some 1) info_example, Retry info_example],
                       now := now ?q + 1,
                       factory_throws := tl (factory_throws ?q),
                       suspended := [AwaitRetry info_example 0]\<rparr>)"
    by (simp add: r u t nullish_default_def Let_def del: run.simps)
  have "run queue_example ([CallEnqueue 10, Settle 0 (Rejected 99)] @ [Tick 1, Timeout 0]) =
          Some (?q\<lparr>emitted := emitted ?q @
                                   [PrepareRetry 99 (Some 1) info_example, Retry info_example],
                       now := now ?q + 1,
                       factory_throws := tl (factory_throws ?q),
                       suspended := [AwaitRetry info_example 0]\<rparr>)"
    unfolding run_append 1 using 2 by simp
  then show ?thesis using e by simp
qed

text \<open>
  Two more configurations: always-retry over the ladder \<open>[1, 2, 3]\<close>, and always-retry
  over an empty ladder.
\<close>

definition options_always :: "nat QueueOptions" where
  "options_always =
     \<lparr> opt_interval = Some 1, opt_concurrent = Some 1, opt_start = None,
       opt_guaranteeOrder = None, opt_onRejection = Some RETRY_THEN_THROW,
       opt_retryIntervals = Some [1, 2, 3], opt_alwaysRetry = Some True,
       opt_retryCondition = None \<rparr>"

definition options_empty_ladder :: "nat QueueOptions" where
  "options_empty_ladder =
     \<lparr> opt_interval = None, opt_concurrent = None, opt_start = None,
       opt_guaranteeOrder = None, opt_onRejection = None,
       opt_retryIntervals = Some [], opt_alwaysRetry = Some True,
       opt_retryCondition = None \<rparr>"

section \<open>The wait before a retry\<close>

text \<open>What \<^verbatim>\<open>interval ?? retryIntervals[retryCount] ?? retryIntervals[length - 1]\<close> comes to.\<close>

lemma retryIn_cases:
  "retryIn q ival retryCount =
     (case ival of
        Some ms \<Rightarrow> Some ms
      | None \<Rightarrow>
          if retryCount < length (retryIntervals q) then Some (retryIntervals q ! retryCount)
          else if retryIntervals q = [] then None
          else Some (last (retryIntervals q)))"
  by (cases "retryIntervals q" rule: rev_cases)
     (auto simp: retryIn_def nullish_def js_index_def split: option.splits)

text \<open>
  A task that keeps failing, seen from the run time: its promise rejects, the clock moves on
  by the ladder's last interval, and the retry timer fires. \<open>retrying_forever\<close> is the
  situation in which this round can be repeated: always-retry over a ladder that is not
  empty, a retry-capable policy with no retry predicate, one call in flight that has used
  up the ladder, and a factory that returns a promise whenever it is called.
\<close>

definition failing_round :: "('v, 'e) Queue \<Rightarrow> 'e \<Rightarrow> ('v, 'e) Action list" where
  "failing_round q err =
     [Settle 0 (Rejected err), Tick (nat (last (retryIntervals q))), Timeout 0]"

definition retrying_forever :: "('v, 'e) Queue \<Rightarrow> InputInfo \<Rightarrow> nat \<Rightarrow> bool" where
  "retrying_forever q inputInfo retryCount =
     (alwaysRetry q \<and> retryIntervals q \<noteq> []
      \<and> (onRejection q = RETRY_THEN_THROW \<or> onRejection q = RETRY_THEN_IGNORE)
      \<and> retryCondition q = None
      \<and> suspended q = [AwaitRetry inputInfo retryCount]
      \<and> length (retryIntervals q) \<le> Suc retryCount
      \<and> factory_throws q = [])"

lemma failing_round_run:
  assumes "retrying_forever q inputInfo retryCount"
  shows "run q (failing_round q err) =
           Some (q\<lparr>emitted := emitted q @
                     [PrepareRetry err (Some (last (retryIntervals q))) inputInfo,
                      Retry inputInfo],
                   suspended := [AwaitRetry inputInfo (Suc retryCount)],
                   now := now q + int (nat (last (retryIntervals q)))\<rparr>)"
proof -
  let ?L = "retryIntervals q"
  let ?q0 = "unpark q 0"
  from assms have a: "alwaysRetry q" and l: "?L \<noteq> []" and c: "retryCondition q = None"
    and p: "onRejection q = RETRY_THEN_THROW \<or> onRejection q = RETRY_THEN_IGNORE"
    and s: "suspended q = [AwaitRetry inputInfo retryCount]" and n: "length ?L \<le> Suc retryCount"
    and f: "factory_throws q = []"
    by (auto simp: retrying_forever_def)
  have r: "retryIn ?q0 None (Suc retryCount) = Some (last ?L)"
    using l n by (simp add: retryIn_cases unpark_def)
  have h: "handleRejection ?q0 err inputInfo (Suc retryCount) =
             attemptRetry ?q0 None (Suc retryCount) err inputInfo"
    using p c by (auto simp: handleRejection.simps nullish_default_def unpark_def)
  let ?q1 = "q\<lparr>emitted := emitted q @ [PrepareRetry err (Some (last ?L)) inputInfo],
               suspended := [SleepRetry inputInfo (Suc retryCount) (now q + max 0 (last ?L))]\<rparr>"
  have 1: "step q (Settle 0 (Rejected err)) = Some ?q1"
    using s a r
    by (simp add: step_def settle_def h attemptRetry.simps)
       (simp add: unpark_def await_def emit_def timer_due_def nullish_default_def)
  let ?q2 = "?q1\<lparr>now := now q + int (nat (last ?L))\<rparr>"
  have 2: "step ?q1 (Tick (nat (last ?L))) = Some ?q2"
    by (simp add: step_def)
  have 3: "step ?q2 (Timeout 0) =
             Some (q\<lparr>emitted := emitted q @
                     [PrepareRetry err (Some (last ?L)) inputInfo, Retry inputInfo],
                   suspended := [AwaitRetry inputInfo (Suc retryCount)],
                   now := now q + int (nat (last ?L))\<rparr>)"
    using f
    by (simp add: step_def timeout_def attemptRetry_resume_def Let_def invoke_throws_def
                  invoked_def unpark_def await_def emit_def)
  from 1 2 3 show ?thesis by (simp add: failing_round_def)
qed

lemma failing_rounds_run:
  assumes "retrying_forever q inputInfo retryCount"
  shows "\<exists>q'. run q (concat (replicate n (failing_round q err))) = Some q'
              \<and> retrying_forever q' inputInfo (retryCount + n)
              \<and> retryIntervals q' = retryIntervals q
              \<and> emitted q' = emitted q @
                   concat (replicate n
                     [PrepareRetry err (Some (last (retryIntervals q))) inputInfo,
                      Retry inputInfo])"
  using assms
proof (induction n arbitrary: q retryCount)
  case 0
  then show ?case by simp
next
  case (Suc n)
  let ?q1 = "q\<lparr>emitted := emitted q @
                     [PrepareRetry err (Some (last (retryIntervals q))) inputInfo,
                      Retry inputInfo],
               suspended := [AwaitRetry inputInfo (Suc retryCount)],
               now := now q + int (nat (last (retryIntervals q)))\<rparr>"
  from Suc.prems have r: "run q (failing_round q err) = Some ?q1" by (rule failing_round_run)
  from Suc.prems have f: "retrying_forever ?q1 inputInfo (Suc retryCount)"
    by (simp add: retrying_forever_def)
  have e: "failing_round ?q1 err = failing_round q err" by (simp add: failing_round_def)
  from Suc.IH [OF f] obtain q' where
    q': "run ?q1 (concat (replicate n (failing_round q err))) = Some q'"
    and f': "retrying_forever q' inputInfo (Suc retryCount + n)"
    and l': "retryIntervals q' = retryIntervals q"
    and e': "emitted q' = emitted ?q1 @
               concat (replicate n
                 [PrepareRetry err (Some (last (retryIntervals q))) inputInfo, Retry inputInfo])"
    unfolding e by auto
  have "run q (concat (replicate (Suc n) (failing_round q err))) = Some q'"
    using r q' by (simp add: run_append)
  moreover have "emitted q' = emitted q @
               concat (replicate (Suc n)
                 [PrepareRetry err (Some (last (retryIntervals q))) inputInfo, Retry inputInfo])"
    using e' by simp
  ultimately show ?case using f' l' by auto
qed



text \<open>
  C10. A scheduler constructed with an empty ladder and always-retry keeps both for its
  whole life. On a failure under a retry-capable policy, when the retry is not declined
  and no override interval is given, both \<^verbatim>\<open>retryIntervals[retryCount]\<close> and
  \<^verbatim>\<open>retryIntervals[length - 1]\<close> are out of bounds, \<^verbatim>\<open>retryIn\<close> is
  \<^verbatim>\<open>undefined\<close>, and the prepareRetry notification carries that absent duration; the
  timer that follows is due at once.
\<close>

theorem empty_ladder_retry_absent:
  assumes "opt_retryIntervals options = Some []"
    and "opt_alwaysRetry options = Some True"
    and "run (constructor (Some options)) as = Some q"
    and "onRejection q = RETRY_THEN_THROW \<or> onRejection q = RETRY_THEN_IGNORE"
    and "case retryCondition q of None \<Rightarrow> True
         | Some f \<Rightarrow> retry (f err) \<and> retry_interval (f err) = None"
  shows "js_index (retryIntervals q) (int retryCount) = None
         \<and> js_index (retryIntervals q) (int (length (retryIntervals q)) - 1) = None
         \<and> retryIn q None retryCount = None
         \<and> handleRejection q err inputInfo retryCount =
             await (emit q (PrepareRetry err None inputInfo))
                   (SleepRetry inputInfo retryCount (now q))"
proof -
  from config_run [OF assms(3)] have c: "retryIntervals q = [] \<and> alwaysRetry q"
    using assms(1,2) by (simp add: config_def constructor_def nullish_default_def)
  then have r: "retryIn q None retryCount = None"
    by (simp add: retryIn_cases)
  have "handleRejection q err inputInfo retryCount = attemptRetry q None retryCount err inputInfo"
    using assms(4,5)
    by (auto simp: handleRejection.simps nullish_default_def split: option.splits)
  with c r show ?thesis
    by (simp add: attemptRetry.simps js_index_def timer_due_def nullish_default_def)
qed

theorem empty_ladder_retry_absent_witness:
  "emitted (handleRejection (enqueue (constructor (Some options_empty_ladder)) 10 :: (nat, nat) Queue)
              99 info_example 0)
     = [Enqueue \<lparr>item_index = 0, item_fn = 10\<rparr>, Start, Dequeue info_example,
        PrepareRetry 99 None info_example]"
proof -
  let ?init = "constructor (Some options_empty_ladder) :: (nat, nat) Queue"
  let ?q = "enqueue ?init 10"
  have 1: "opt_retryIntervals options_empty_ladder = Some []" by code_simp
  have 2: "opt_alwaysRetry options_empty_ladder = Some True" by code_simp
  have 3: "run ?init [CallEnqueue 10] = Some ?q" by (simp add: step_def)
  have 4: "onRejection ?q = RETRY_THEN_THROW" by code_simp
  have 5: "retryCondition ?q = None" by code_simp
  have 6: "emitted ?q = [Enqueue \<lparr>item_index = 0, item_fn = 10\<rparr>, Start, Dequeue info_example]"
    by code_simp
  from empty_ladder_retry_absent [OF 1 2 3 disjI1 [OF 4], of 99 0 info_example] 5
  have "handleRejection ?q 99 info_example 0 =
          await (emit ?q (PrepareRetry 99 None info_example)) (SleepRetry info_example 0 (now ?q))"
    by simp
  with 6 show ?thesis by (simp add: await_def emit_def)
qed

section \<open>Failures\<close>

text \<open>
  Schedulers for the failure paths: retry-then-fail over the ladder \<open>[1]\<close>, and fail-fast
  with two slots.
\<close>

definition options_short_ladder :: "nat QueueOptions" where
  "options_short_ladder =
     \<lparr> opt_interval = None, opt_concurrent = None, opt_start = None,
       opt_guaranteeOrder = None, opt_onRejection = None,
       opt_retryIntervals = Some [1], opt_alwaysRetry = None, opt_retryCondition = None \<rparr>"

definition options_throw :: "nat QueueOptions" where
  "options_throw =
     \<lparr> opt_interval = None, opt_concurrent = Some 2, opt_start = None,
       opt_guaranteeOrder = None, opt_onRejection = Some THROW,
       opt_retryIntervals = None, opt_alwaysRetry = None, opt_retryCondition = None \<rparr>"

definition info_second :: InputInfo where
  "info_second = \<lparr>info_index = 1, info_startTime = 0, info_fn = 11\<rparr>"

text \<open>
  The three ways \<^verbatim>\<open>handleRejection\<close> can go, told by the configuration, the failure and
  the attempt count: a retry, a fatal outcome, or a per-task rejection.
\<close>

definition wants_retry :: "('v, 'e) Queue \<Rightarrow> 'e \<Rightarrow> bool" where
  "wants_retry q err = (case retryCondition q of None \<Rightarrow> True | Some f \<Rightarrow> retry (f err))"

definition retries :: "('v, 'e) Queue \<Rightarrow> 'e \<Rightarrow> nat \<Rightarrow> bool" where
  "retries q err retryCount =
     ((onRejection q = RETRY_THEN_THROW \<or> onRejection q = RETRY_THEN_IGNORE)
      \<and> wants_retry q err
      \<and> (alwaysRetry q \<or> retryCount < length (retryIntervals q)))"

definition fatal :: "('v, 'e) Queue \<Rightarrow> bool" where
  "fatal q = (onRejection q = THROW \<or> onRejection q = RETRY_THEN_THROW)"

text \<open>
  What the methods emit comes after what was emitted before; and a \<^verbatim>\<open>dequeue\<close> whose
  factory returns a promise, or that finds the queue empty, emits one notification or two.
\<close>

lemma emitted_methods:
  "\<exists>evs. emitted (dequeue q) = emitted q @ evs"
  "\<exists>evs. emitted (rejectAndContinue q err inputInfo) = emitted q @ evs"
  "\<exists>evs. emitted (attemptRetry q ival retryCount err inputInfo) = emitted q @ evs"
  "\<exists>evs. emitted (handleRejection q err inputInfo retryCount) = emitted q @ evs"
  by (rule methods_rel [where Rel = "\<lambda>a b. \<exists>evs. emitted b = emitted a @ evs"];
      auto simp: shifted_def rejected_def fail_cases emit_def end_q_def await_def)+

lemma emitted_dequeue:
  "queue q = [] \<or> invoke_throws q = None \<Longrightarrow>
   emitted (dequeue q) = emitted q @
     (case queue q of
        promise # rest \<Rightarrow>
          [Dequeue \<lparr>info_index = index q, info_startTime = now q, info_fn = promise\<rparr>]
      | [] \<Rightarrow> (if started q then [End] else []) @ [Finish])"
  by (cases "queue q")
     (auto simp: dequeue_Nil dequeue_Cons shifted_def next_info_def emit_def await_def end_q_def
                 started_def)

text \<open>
  C3, as stated, fails. Two tasks that always fail run side by side under retry-then-fail
  over the ladder \<open>[1]\<close>. Each is retried once. The first to fail again halts the scheduler
  with fail and end; the second reaches the ladder's length too, but \<^verbatim>\<open>fail\<close> finds the
  scheduler no longer running and emits nothing: its failure 98 has no fatal-failure
  notification.
\<close>

theorem exhausted_ladder_counterexample:
  "map_option (\<lambda>q. (emitted q, suspended q, started q))
     (run (constructor (Some options_short_ladder) :: (nat, nat) Queue)
        [CallEnqueue 10, CallEnqueue 11, Settle 0 (Rejected 99), Settle 0 (Rejected 98),
         Tick 1, Timeout 0, Timeout 0, Settle 0 (Rejected 99), Settle 0 (Rejected 98)])
   = Some ([Enqueue \<lparr>item_index = 0, item_fn = 10\<rparr>, Start, Dequeue info_example,
            Enqueue \<lparr>item_index = 0, item_fn = 11\<rparr>, Start, Dequeue info_second,
            PrepareRetry 99 (Some 1) info_example, PrepareRetry 98 (Some 1) info_second,
            Retry info_example, Retry info_second, Fail 99, End],
           [], False)"
  by code_simp

text \<open>
  C3, amended. Once the attempt count has reached the ladder's length and always-retry is
  not set, there is no further retry, whatever the retry predicate says. Under
  retry-then-fail, a scheduler that is running emits fail and end and stops running; one
  that is not running (stopped, or halted by another task's failure) emits nothing and
  does not change. Under retry-then-ignore the reject notification is emitted, the
  failure is recorded under the task's sequence number, the in-flight count is decremented
  and \<^verbatim>\<open>dequeue\<close> is called.
\<close>

theorem exhausted_ladder_terminal:
  assumes "\<not> alwaysRetry q" and "length (retryIntervals q) \<le> retryCount"
  shows "(onRejection q = RETRY_THEN_THROW \<longrightarrow>
            handleRejection q err inputInfo retryCount =
              (if started q
               then q\<lparr>isRunning := False, emitted := emitted q @ [Fail err, End]\<rparr>
               else q))
         \<and> (onRejection q = RETRY_THEN_IGNORE \<longrightarrow>
              handleRejection q err inputInfo retryCount =
                dequeue (q\<lparr>emitted := emitted q @ [Reject err inputInfo],
                           rejectObject :=
                             AList.update (info_index inputInfo) err (rejectObject q),
                           runningCount := runningCount q - 1\<rparr>))"
  using assms
  by (simp add: handleRejection.simps attemptRetry.simps Let_def fail_cases
                rejectAndContinue_cases rejected_def)

theorem exhausted_ladder_terminal_witness:
  "emitted (handleRejection (enqueue (constructor (Some options_short_ladder)) 10 :: (nat, nat) Queue)
              99 info_example 1)
     = [Enqueue \<lparr>item_index = 0, item_fn = 10\<rparr>, Start, Dequeue info_example, Fail 99, End]
   \<and> \<not> started (handleRejection
                   (enqueue (constructor (Some options_short_ladder)) 10 :: (nat, nat) Queue)
                   99 info_example 1)
   \<and> emitted (handleRejection (enqueue queue_example 10) 99 info_example 3)
     = [Enqueue \<lparr>item_index = 0, item_fn = 10\<rparr>, Start, Dequeue info_example,
        Reject 99 info_example, End, Finish]
   \<and> runningCount (handleRejection (enqueue queue_example 10) 99 info_example 3) = 0
   \<and> rejectObject (handleRejection (enqueue queue_example 10) 99 info_example 3) = [(0, 99)]"
proof -
  let ?a = "enqueue (constructor (Some options_short_ladder)) 10 :: (nat, nat) Queue"
  let ?b = "enqueue queue_example 10"
  have a1: "\<not> alwaysRetry ?a" by code_simp
  have a2: "length (retryIntervals ?a) \<le> 1" by code_simp
  have a3: "onRejection ?a = RETRY_THEN_THROW" by code_simp
  have a4: "started ?a" by code_simp
  have a5: "emitted ?a = [Enqueue \<lparr>item_index = 0, item_fn = 10\<rparr>, Start, Dequeue info_example]"
    by code_simp
  have b1: "\<not> alwaysRetry ?b" by code_simp
  have b2: "length (retryIntervals ?b) \<le> 3" by code_simp
  have b3: "onRejection ?b = RETRY_THEN_IGNORE" by code_simp
  have b4: "emitted (dequeue (?b\<lparr>emitted := emitted ?b @ [Reject 99 info_example],
                           rejectObject :=
                             AList.update (info_index info_example) 99 (rejectObject ?b),
                           runningCount := runningCount ?b - 1\<rparr>))
            = [Enqueue \<lparr>item_index = 0, item_fn = 10\<rparr>, Start, Dequeue info_example,
               Reject 99 info_example, End, Finish]"
    by code_simp
  have b5: "runningCount (dequeue (?b\<lparr>emitted := emitted ?b @ [Reject 99 info_example],
                           rejectObject :=
                             AList.update (info_index info_example) 99 (rejectObject ?b),
                           runningCount := runningCount ?b - 1\<rparr>)) = 0"
    by code_simp
  have b6: "rejectObject (dequeue (?b\<lparr>emitted := emitted ?b @ [Reject 99 info_example],
                           rejectObject :=
                             AList.update (info_index info_example) 99 (rejectObject ?b),
                           runningCount := runningCount ?b - 1\<rparr>)) = [(0, 99)]"
    by code_simp
  from exhausted_ladder_terminal [OF a1 a2, of 99 info_example] a3 a4
  have a: "handleRejection ?a 99 info_example 1 =
             ?a\<lparr>isRunning := False, emitted := emitted ?a @ [Fail 99, End]\<rparr>"
    by simp
  from exhausted_ladder_terminal [OF b1 b2, of 99 info_example] b3
  have b: "handleRejection ?b 99 info_example 3 =
             dequeue (?b\<lparr>emitted := emitted ?b @ [Reject 99 info_example],
                           rejectObject :=
                             AList.update (info_index info_example) 99 (rejectObject ?b),
                           runningCount := runningCount ?b - 1\<rparr>)"
    by simp
  show ?thesis
    unfolding a b using a5 b4 b5 b6 by (simp add: started_def)
qed

text \<open>
  C8, as stated, fails. A failure that is retried is announced by prepareRetry, and neither
  reject nor fail is emitted for it although the task goes on to be retried and resolved.
  Under fail-fast, the second of two failures finds the scheduler halted and is dropped
  without any notification.
\<close>

theorem failure_surfaced_counterexample:
  "map_option emitted
     (run (constructor None :: (nat, nat) Queue)
        [CallEnqueue 10, Settle 0 (Rejected 99), Tick 1000, Timeout 0, Settle 0 (Fulfilled 7)])
   = Some [Enqueue \<lparr>item_index = 0, item_fn = 10\<rparr>, Start, Dequeue info_example,
           PrepareRetry 99 (Some 1000) info_example, Retry info_example, Resolve 7]
   \<and> map_option emitted
     (run (constructor (Some options_throw) :: (nat, nat) Queue)
        [CallEnqueue 10, CallEnqueue 11, Settle 0 (Rejected 99), Settle 0 (Rejected 98)])
   = Some [Enqueue \<lparr>item_index = 0, item_fn = 10\<rparr>, Start, Dequeue info_example,
           Enqueue \<lparr>item_index = 0, item_fn = 11\<rparr>, Start, Dequeue info_second,
           Fail 99, End]"
  by code_simp

text \<open>
  C8, amended. The first notification of every failure handled by \<^verbatim>\<open>handleRejection\<close>
  is exactly one of prepareRetry (the failure is retried), fail (the outcome is fatal and
  the scheduler is running) and reject (the outcome is per-task). After prepareRetry nothing
  follows, after fail only end. After reject comes what the next \<^verbatim>\<open>dequeue\<close> emits:
  end and finish on an empty queue, the dequeue notification of the next task when its
  factory returns a promise, and otherwise that notification followed by the handling of
  the next task's own failure. The one failure with no notification is a fatal outcome
  reached while the scheduler is not running: nothing is emitted and nothing changes.
\<close>

theorem failure_surfaced:
  "(retries q err retryCount \<longrightarrow>
      (\<exists>ms. emitted (handleRejection q err inputInfo retryCount) =
              emitted q @ [PrepareRetry err ms inputInfo]))
   \<and> (\<not> retries q err retryCount \<and> fatal q \<and> started q \<longrightarrow>
        emitted (handleRejection q err inputInfo retryCount) = emitted q @ [Fail err, End])
   \<and> (\<not> retries q err retryCount \<and> fatal q \<and> \<not> started q \<longrightarrow>
        handleRejection q err inputInfo retryCount = q)
   \<and> (\<not> retries q err retryCount \<and> \<not> fatal q \<longrightarrow>
        handleRejection q err inputInfo retryCount =
          dequeue (q\<lparr>emitted := emitted q @ [Reject err inputInfo],
                     rejectObject := AList.update (info_index inputInfo) err (rejectObject q),
                     runningCount := runningCount q - 1\<rparr>)
        \<and> (\<exists>evs. emitted (handleRejection q err inputInfo retryCount) =
                    emitted q @ Reject err inputInfo # evs)
        \<and> (queue q = [] \<or> invoke_throws q = None \<longrightarrow>
             emitted (handleRejection q err inputInfo retryCount) =
               emitted q @ Reject err inputInfo #
                 (case queue q of
                    promise # rest \<Rightarrow>
                      [Dequeue \<lparr>info_index = index q, info_startTime = now q,
                                info_fn = promise\<rparr>]
                  | [] \<Rightarrow> (if started q then [End] else []) @ [Finish])))"
proof -
  let ?h = "handleRejection q err inputInfo retryCount"
  let ?r = "rejected q err inputInfo"
  have 1: "retries q err retryCount \<longrightarrow>
      (\<exists>ms. emitted ?h = emitted q @ [PrepareRetry err ms inputInfo])"
    by (cases "onRejection q"; cases "retryCondition q")
       (auto simp: retries_def wants_retry_def handleRejection.simps attemptRetry.simps
                   nullish_default_def await_def emit_def)
  have 2: "\<not> retries q err retryCount \<and> fatal q \<longrightarrow> ?h = fail q err"
    by (cases "onRejection q"; cases "retryCondition q")
       (auto simp: retries_def fatal_def wants_retry_def handleRejection.simps
                   attemptRetry.simps nullish_default_def)
  have 3: "\<not> retries q err retryCount \<and> \<not> fatal q \<longrightarrow> ?h = dequeue ?r"
    by (cases "onRejection q"; cases "retryCondition q")
       (auto simp: retries_def fatal_def wants_retry_def handleRejection.simps
                   attemptRetry.simps nullish_default_def rejectAndContinue_cases)
  from emitted_methods(1) [of ?r] obtain evs where
    "emitted (dequeue ?r) = emitted q @ Reject err inputInfo # evs"
    by (auto simp: rejected_def)
  then have 4: "\<exists>evs. emitted (dequeue ?r) = emitted q @ Reject err inputInfo # evs" by blast
  have 5: "queue q = [] \<or> invoke_throws q = None \<longrightarrow>
             emitted (dequeue ?r) =
               emitted q @ Reject err inputInfo #
                 (case queue q of
                    promise # rest \<Rightarrow>
                      [Dequeue \<lparr>info_index = index q, info_startTime = now q,
                                info_fn = promise\<rparr>]
                  | [] \<Rightarrow> (if started q then [End] else []) @ [Finish])"
  proof
    assume "queue q = [] \<or> invoke_throws q = None"
    then have "queue ?r = [] \<or> invoke_throws ?r = None"
      by (simp add: rejected_def invoke_throws_def)
    from emitted_dequeue [OF this] show "emitted (dequeue ?r) =
               emitted q @ Reject err inputInfo #
                 (case queue q of
                    promise # rest \<Rightarrow>
                      [Dequeue \<lparr>info_index = index q, info_startTime = now q,
                                info_fn = promise\<rparr>]
                  | [] \<Rightarrow> (if started q then [End] else []) @ [Finish])"
      by (simp add: rejected_def started_def split: list.splits)
  qed
  have r: "?r = q\<lparr>emitted := emitted q @ [Reject err inputInfo],
                     rejectObject := AList.update (info_index inputInfo) err (rejectObject q),
                     runningCount := runningCount q - 1\<rparr>"
    by (simp add: rejected_def)
  show ?thesis
    using 1 2 3 4 5 unfolding r by (simp add: fail_cases)
qed

theorem failure_surfaced_witness:
  "(\<exists>ms. emitted (handleRejection (enqueue queue_example 10) 99 info_example 0) =
          [Enqueue \<lparr>item_index = 0, item_fn = 10\<rparr>, Start, Dequeue info_example,
           PrepareRetry 99 ms info_example])
   \<and> emitted (handleRejection (enqueue (constructor (Some options_throw)) 10 :: (nat, nat) Queue)
                99 info_example 0) =
          [Enqueue \<lparr>item_index = 0, item_fn = 10\<rparr>, Start, Dequeue info_example, Fail 99, End]
   \<and> handleRejection (stop (enqueue (constructor (Some options_throw)) 10) :: (nat, nat) Queue)
                99 info_example 0 =
          stop (enqueue (constructor (Some options_throw)) 10)
   \<and> emitted (handleRejection (enqueue queue_example 10) 99 info_example 3) =
          [Enqueue \<lparr>item_index = 0, item_fn = 10\<rparr>, Start, Dequeue info_example,
           Reject 99 info_example, End, Finish]"
proof -
  let ?a = "enqueue queue_example 10"
  let ?b = "enqueue (constructor (Some options_throw)) 10 :: (nat, nat) Queue"
  let ?c = "stop ?b"
  have ea: "emitted ?a = [Enqueue \<lparr>item_index = 0, item_fn = 10\<rparr>, Start, Dequeue info_example]"
    by code_simp
  have eb: "emitted ?b = [Enqueue \<lparr>item_index = 0, item_fn = 10\<rparr>, Start, Dequeue info_example]"
    by code_simp
  have a: "retries ?a 99 0" by code_simp
  have b: "\<not> retries ?b 99 0 \<and> fatal ?b \<and> started ?b" by code_simp
  have c: "\<not> retries ?c 99 0 \<and> fatal ?c \<and> \<not> started ?c" by code_simp
  have d: "\<not> retries ?a 99 3 \<and> \<not> fatal ?a" by code_simp
  have qa: "queue ?a = []" by code_simp
  have sa: "started ?a" by code_simp
  from failure_surfaced [of ?a 99 0 info_example] a ea
  have 1: "\<exists>ms. emitted (handleRejection ?a 99 info_example 0) =
          [Enqueue \<lparr>item_index = 0, item_fn = 10\<rparr>, Start, Dequeue info_example,
           PrepareRetry 99 ms info_example]"
    by simp
  from failure_surfaced [of ?b 99 0 info_example] b eb
  have 2: "emitted (handleRejection ?b 99 info_example 0) =
          [Enqueue \<lparr>item_index = 0, item_fn = 10\<rparr>, Start, Dequeue info_example, Fail 99, End]"
    by simp
  from failure_surfaced [of ?c 99 0 info_example] c
  have 3: "handleRejection ?c 99 info_example 0 = ?c"
    by blast
  from failure_surfaced [of ?a 99 3 info_example] d qa
  have "emitted (handleRejection ?a 99 info_example 3) =
          emitted ?a @ Reject 99 info_example #
            (case queue ?a of
               promise # rest \<Rightarrow>
                 [Dequeue \<lparr>info_index = index ?a, info_startTime = now ?a, info_fn = promise\<rparr>]
             | [] \<Rightarrow> (if started ?a then [End] else []) @ [Finish])"
    by blast
  with ea qa sa
  have 4: "emitted (handleRejection ?a 99 info_example 3) =
          [Enqueue \<lparr>item_index = 0, item_fn = 10\<rparr>, Start, Dequeue info_example,
           Reject 99 info_example, End, Finish]"
    by simp
  from 1 2 3 4 show ?thesis by blast
qed

section \<open>Fail-fast\<close>

text \<open>
  Reading a trace of notifications from the left: \<open>halted_after\<close> tells whether the last
  fail notification has not been followed by a start notification, and
  \<open>dequeue_while_halted\<close> whether some dequeue notification stands between a fail
  notification and the next start notification. The flag \<open>h\<close> is the state of the reading.
\<close>

fun halted_after :: "bool \<Rightarrow> ('v, 'e) QueueEvent list \<Rightarrow> bool" where
  "halted_after h [] = h"
| "halted_after h (Fail err # evs) = halted_after True evs"
| "halted_after h (Start # evs) = halted_after False evs"
| "halted_after h (ev # evs) = halted_after h evs"

fun dequeue_while_halted :: "bool \<Rightarrow> ('v, 'e) QueueEvent list \<Rightarrow> bool" where
  "dequeue_while_halted h [] = False"
| "dequeue_while_halted h (Fail err # evs) = dequeue_while_halted True evs"
| "dequeue_while_halted h (Start # evs) = dequeue_while_halted False evs"
| "dequeue_while_halted h (Dequeue inputInfo # evs) = (h \<or> dequeue_while_halted h evs)"
| "dequeue_while_halted h (ev # evs) = dequeue_while_halted h evs"

text \<open>
  What holds in every state of a fail-fast scheduler whose factories return promises and
  whose client does not call \<^verbatim>\<open>dequeue\<close> itself: no dequeue has followed a fatal
  failure, and a scheduler halted by one is not running.
\<close>

text \<open>
  Failures arrive through promises only when every factory returns a promise: no call to
  come is listed as throwing at once, and no action of the run arranges one.
\<close>

definition returns_promises :: "'e option list \<Rightarrow> bool" where
  "returns_promises throws = list_all (\<lambda>t. t = None) throws"

fun asynchronous :: "('v, 'e) Action \<Rightarrow> bool" where
  "asynchronous (Arrange throws) = returns_promises throws"
| "asynchronous a = True"

definition fail_fast_inv :: "('v, 'e) Queue \<Rightarrow> bool" where
  "fail_fast_inv q =
     (onRejection q = THROW
      \<and> returns_promises (factory_throws q)
      \<and> \<not> dequeue_while_halted False (emitted q)
      \<and> (halted_after False (emitted q) \<longrightarrow> \<not> isRunning q))"

text \<open>Fail-fast with two slots and no auto-start, for a factory that throws at once.\<close>

definition options_throw_manual :: "nat QueueOptions" where
  "options_throw_manual =
     \<lparr> opt_interval = None, opt_concurrent = Some 2, opt_start = Some False,
       opt_guaranteeOrder = None, opt_onRejection = Some THROW,
       opt_retryIntervals = None, opt_alwaysRetry = None, opt_retryCondition = None \<rparr>"

lemma returns_promises_invoke:
  "returns_promises (factory_throws q) \<Longrightarrow>
   invoke_throws q = None \<and> returns_promises (factory_throws (invoked q))"
  by (cases "factory_throws q") (auto simp: returns_promises_def invoke_throws_def invoked_def)

lemma halted_after_append:
  "halted_after h (xs @ ys) = halted_after (halted_after h xs) ys"
  by (induction h xs rule: halted_after.induct) auto

lemma dequeue_while_halted_append:
  "dequeue_while_halted h (xs @ ys) =
     (dequeue_while_halted h xs \<or> dequeue_while_halted (halted_after h xs) ys)"
  by (induction h xs rule: dequeue_while_halted.induct) auto

lemma halted_after_Resolves [simp]: "halted_after h (map Resolve vs) = h"
  by (induction vs) auto

lemma dequeue_while_halted_Resolves [simp]: "\<not> dequeue_while_halted h (map Resolve vs)"
  by (induction vs) auto

lemma attemptEmit_while_emitted:
  "\<exists>vs. emitted (attemptEmit_while q) = emitted q @ map Resolve vs"
proof (induction q rule: attemptEmit_while.induct)
  case (1 q)
  show ?case
  proof (cases "map_of (resolveObject q) (completed q)")
    case (Some r)
    from "1.IH"(2) [OF Some] obtain vs where
      "emitted (attemptEmit_while
         ((emit q (Resolve (fst r)))
            \<lparr>resolveObject := AList.delete (completed q) (resolveObject q),
             completed := completed q + 1\<rparr>)) = emitted q @ map Resolve (fst r # vs)"
      by (auto simp: emit_def)
    with Some show ?thesis
      by (subst attemptEmit_while.simps) (auto simp del: list.map)
  next
    case None
    note rn = None
    show ?thesis
    proof (cases "map_of (rejectObject q) (completed q)")
      case None
      with rn have "emitted (attemptEmit_while q) = emitted q @ map Resolve []"
        by (subst attemptEmit_while.simps) simp
      then show ?thesis by blast
    next
      case (Some e)
      from "1.IH"(1) [OF rn Some] rn Some show ?thesis
        by (subst attemptEmit_while.simps) simp
    qed
  qed
qed

lemma attemptEmit_while_isRunning [simp]: "isRunning (attemptEmit_while q) = isRunning q"
proof (induction q rule: attemptEmit_while.induct)
  case (1 q)
  show ?case
  proof (cases "map_of (resolveObject q) (completed q)")
    case (Some r)
    with "1.IH"(2) [OF Some] show ?thesis
      by (subst attemptEmit_while.simps) (simp add: emit_def)
  next
    case None
    note rn = None
    show ?thesis
    proof (cases "map_of (rejectObject q) (completed q)")
      case None
      with rn show ?thesis by (subst attemptEmit_while.simps) simp
    next
      case (Some e)
      from "1.IH"(1) [OF rn Some] rn Some show ?thesis
        by (subst attemptEmit_while.simps) simp
    qed
  qed
qed

lemma attemptEmit_while_factory_throws [simp]:
  "factory_throws (attemptEmit_while q) = factory_throws q"
proof (induction q rule: attemptEmit_while.induct)
  case (1 q)
  show ?case
  proof (cases "map_of (resolveObject q) (completed q)")
    case (Some r)
    with "1.IH"(2) [OF Some] show ?thesis
      by (subst attemptEmit_while.simps) (simp add: emit_def)
  next
    case None
    note rn = None
    show ?thesis
    proof (cases "map_of (rejectObject q) (completed q)")
      case None
      with rn show ?thesis by (subst attemptEmit_while.simps) simp
    next
      case (Some e)
      from "1.IH"(1) [OF rn Some] rn Some show ?thesis
        by (subst attemptEmit_while.simps) simp
    qed
  qed
qed

lemma onRejection_config: "config q' = config q \<Longrightarrow> onRejection q' = onRejection q"
  by (simp add: config_def)

lemma fail_fast_inv_dequeue:
  assumes "fail_fast_inv q" and "\<not> halted_after False (emitted q)"
  shows "fail_fast_inv (dequeue q) \<and> \<not> halted_after False (emitted (dequeue q))"
proof -
  from assms(1) have p: "returns_promises (factory_throws q)" by (simp add: fail_fast_inv_def)
  note i = returns_promises_invoke [OF p]
  show ?thesis
  proof (cases "queue q")
    case Nil
    with assms show ?thesis
      by (auto simp: fail_fast_inv_def dequeue_Nil end_q_def emit_def started_def
                     halted_after_append dequeue_while_halted_append)
  next
    case (Cons promise rest)
    with i have "dequeue q = await (shifted q promise rest) (AwaitDequeue (next_info q promise))"
      by (simp add: dequeue_Cons)
    with assms i show ?thesis
      by (auto simp: fail_fast_inv_def shifted_def await_def invoked_def halted_after_append
                     dequeue_while_halted_append)
  qed
qed

lemma fail_fast_inv_start_while:
  assumes "fail_fast_inv q" and "\<not> halted_after False (emitted q)"
  shows "fail_fast_inv (start_while q) \<and> \<not> halted_after False (emitted (start_while q))"
  using assms
proof (induction q rule: start_while.induct)
  case (1 q)
  show ?case
  proof (cases "shouldRun q")
    case True
    with "1.IH" [OF True] fail_fast_inv_dequeue [OF "1.prems"] show ?thesis
      by (subst (1 2) start_while.simps) simp
  next
    case False
    with "1.prems" show ?thesis by (subst (1 2) start_while.simps) simp
  qed
qed

lemma fail_fast_inv_start: "fail_fast_inv q \<Longrightarrow> fail_fast_inv (start q)"
  unfolding start_def
  by (rule conjunct1 [OF fail_fast_inv_start_while])
     (auto simp: fail_fast_inv_def emit_def halted_after_append dequeue_while_halted_append)

lemma fail_fast_inv_enqueue: "fail_fast_inv q \<Longrightarrow> fail_fast_inv (enqueue q promise)"
proof -
  assume a: "fail_fast_inv q"
  let ?q2 = "emit (q\<lparr>queue := queue q @ [promise]\<rparr>)
               (Enqueue \<lparr>item_index = length (queue q @ [promise]) - 1, item_fn = promise\<rparr>)"
  from a have "fail_fast_inv ?q2"
    by (auto simp: fail_fast_inv_def emit_def halted_after_append dequeue_while_halted_append)
  then show ?thesis
    using fail_fast_inv_start [of ?q2] by (simp add: enqueue_def Let_def)
qed

lemma fail_fast_inv_stop: "fail_fast_inv q \<Longrightarrow> fail_fast_inv (stop q)"
  by (auto simp: fail_fast_inv_def stop_def end_q_def emit_def started_def halted_after_append
                 dequeue_while_halted_append)

lemma fail_fast_inv_clear: "fail_fast_inv q \<Longrightarrow> fail_fast_inv (clear q)"
  by (auto simp: fail_fast_inv_def clear_def)

lemma fail_fast_inv_fail: "fail_fast_inv q \<Longrightarrow> fail_fast_inv (fail q err)"
  by (auto simp: fail_fast_inv_def fail_cases started_def halted_after_append
                 dequeue_while_halted_append)

lemma fail_fast_inv_handleRejection:
  "fail_fast_inv q \<Longrightarrow> fail_fast_inv (handleRejection q err inputInfo retryCount)"
  using fail_fast_inv_fail [of q err] by (simp add: handleRejection.simps fail_fast_inv_def)

lemma fail_fast_inv_attemptEmit:
  assumes "fail_fast_inv q"
  shows "fail_fast_inv (attemptEmit q res inputInfo)"
proof -
  let ?q1 = "q\<lparr>resolveObject :=
               AList.update (info_index inputInfo) (res, inputInfo) (resolveObject q)\<rparr>"
  obtain vs where vs: "emitted (attemptEmit_while ?q1) = emitted q @ map Resolve vs"
    using attemptEmit_while_emitted [of ?q1] by auto
  have c: "onRejection (attemptEmit_while ?q1) = onRejection q"
    using onRejection_config [OF config_attemptEmit_while, of ?q1] by simp
  show ?thesis
  proof (cases "guaranteeOrder q")
    case True
    with assms vs c show ?thesis
      by (simp add: attemptEmit_def continue_def Let_def await_def fail_fast_inv_def
                    halted_after_append dequeue_while_halted_append)
  next
    case False
    with assms show ?thesis
      by (simp add: attemptEmit_def continue_def Let_def await_def emit_def fail_fast_inv_def
                    halted_after_append dequeue_while_halted_append)
  qed
qed

lemma fail_fast_inv_unpark [simp]: "fail_fast_inv (unpark q n) = fail_fast_inv q"
  by (simp add: fail_fast_inv_def unpark_def)

lemma fail_fast_inv_continue_resume: "fail_fast_inv q \<Longrightarrow> fail_fast_inv (continue_resume q)"
  using fail_fast_inv_dequeue [of q]
  by (auto simp: continue_resume_def started_def fail_fast_inv_def)

lemma fail_fast_inv_attemptRetry_resume:
  assumes "fail_fast_inv q"
  shows "fail_fast_inv (attemptRetry_resume q inputInfo retryCount)"
proof -
  from assms have "returns_promises (factory_throws (emit q (Retry inputInfo)))"
    by (simp add: fail_fast_inv_def emit_def)
  from returns_promises_invoke [OF this] assms show ?thesis
    by (auto simp: fail_fast_inv_def attemptRetry_resume_def Let_def await_def emit_def
                   invoked_def halted_after_append dequeue_while_halted_append)
qed

lemma fail_fast_inv_step:
  assumes "fail_fast_inv q" and "a \<noteq> CallDequeue" and "asynchronous a"
    and "step q a = Some q'"
  shows "fail_fast_inv q'"
proof (cases a)
  case (Settle n r)
  with assms show ?thesis
    by (auto simp: step_def settle_def fail_fast_inv_attemptEmit fail_fast_inv_handleRejection
             split: if_splits Suspended.splits Settled.splits)
next
  case (Timeout n)
  with assms show ?thesis
    by (auto simp: step_def timeout_def fail_fast_inv_continue_resume
                   fail_fast_inv_attemptRetry_resume
             split: if_splits Suspended.splits)
next
  case (Tick ms)
  with assms show ?thesis by (auto simp: step_def fail_fast_inv_def)
next
  case (Arrange throws)
  with assms show ?thesis by (auto simp: step_def fail_fast_inv_def)
qed (use assms in \<open>auto simp: step_def fail_fast_inv_enqueue fail_fast_inv_start
                     fail_fast_inv_stop fail_fast_inv_clear\<close>)

lemma fail_fast_inv_run:
  "fail_fast_inv q \<Longrightarrow> CallDequeue \<notin> set as \<Longrightarrow> list_all asynchronous as \<Longrightarrow>
   run q as = Some q' \<Longrightarrow> fail_fast_inv q'"
proof (induction as arbitrary: q)
  case Nil
  then show ?case by simp
next
  case (Cons a as)
  from Cons.prems(4) obtain q1 where s: "step q a = Some q1" and r: "run q1 as = Some q'"
    by (auto split: option.splits)
  from Cons.prems(2) have n: "a \<noteq> CallDequeue" by auto
  from Cons.prems(3) have y: "asynchronous a" by simp
  from fail_fast_inv_step [OF Cons.prems(1) n y s] have "fail_fast_inv q1" .
  with Cons.IH [of q1] Cons.prems(2,3) r show ?case by simp
qed




section \<open>The concurrency limit\<close>

text \<open>
  \<^verbatim>\<open>start\<close> asks \<^verbatim>\<open>shouldRun\<close> before every dequeue, so its loop never takes the
  in-flight count above the limit.
\<close>

lemma start_while_single:
  assumes "queue q = [promise]" and "runningCount q < concurrent q"
  shows "start_while q = dequeue q"
proof -
  from assms have "shouldRun q" by (simp add: shouldRun_def isEmpty_def size_q_def)
  moreover from assms dequeue_shrinks [of q] have "\<not> shouldRun (dequeue q)"
    by (simp add: shouldRun_def isEmpty_def size_q_def)
  ultimately show ?thesis
    by (subst start_while.simps, simp, subst start_while.simps, simp)
qed

text \<open>
  One call of \<^verbatim>\<open>dequeue\<close> raises the in-flight count by one at most: a task whose factory
  throws at once and is rejected gives its slot back before the next task takes one.
\<close>

lemma running_count_methods:
  "runningCount (dequeue q) \<le> runningCount q + 1 \<and> concurrent (dequeue q) = concurrent q"
  "runningCount (rejectAndContinue q err inputInfo) \<le> runningCount q"
  "runningCount (attemptRetry q ival retryCount err inputInfo) \<le> runningCount q"
  "runningCount (handleRejection q err inputInfo retryCount) \<le> runningCount q"
proof (induction q and q err inputInfo and q ival retryCount err inputInfo
         and q err inputInfo retryCount
       rule: dequeue_rejectAndContinue_attemptRetry_handleRejection.induct)
  case (1 q)
  have c: "concurrent (dequeue q) = concurrent q"
    using config_methods(1) [of q] by (simp add: config_def)
  show ?case
  proof (cases "queue q")
    case Nil
    with c show ?thesis by (simp add: dequeue_Nil end_q_def emit_def)
  next
    case (Cons promise rest)
    show ?thesis
    proof (cases "invoke_throws q")
      case None
      with Cons c show ?thesis by (simp add: dequeue_Cons shifted_def await_def)
    next
      case (Some err)
      have "invoked (emit (q\<lparr>queue := rest, runningCount := runningCount q + 1,
                              index := index q + 1\<rparr>) (Dequeue (next_info q promise)))
            = shifted q promise rest"
        by (simp add: invoked_def emit_def shifted_def)
      with "1.IH" [OF Cons refl refl refl refl refl refl refl, of err] Some
      have "runningCount (handleRejection (shifted q promise rest) err (next_info q promise) 0)
              \<le> runningCount (shifted q promise rest)"
        by (simp add: next_info_def invoke_throws_def emit_def)
      with Cons Some c show ?thesis by (simp add: dequeue_Cons shifted_def)
    qed
  qed
next
  case (2 q err inputInfo)
  from "2.IH" [OF refl refl refl]
  have "runningCount (dequeue (rejected q err inputInfo))
          \<le> runningCount (rejected q err inputInfo) + 1"
    by (simp add: rejected_def emit_def)
  then show ?case by (simp add: rejectAndContinue_cases rejected_def)
next
  case (3 q ival retryCount err inputInfo)
  then show ?case
    by (subst attemptRetry.simps) (auto simp: await_def emit_def fail_cases)
next
  case (4 q err inputInfo retryCount)
  then show ?case
    by (subst handleRejection.simps) (auto simp: Let_def fail_cases split: OnRejection.splits)
qed

lemma start_while_limit:
  "runningCount q \<le> concurrent q \<Longrightarrow> runningCount (start_while q) \<le> concurrent (start_while q)"
proof (induction q rule: start_while.induct)
  case (1 q)
  show ?case
  proof (cases "shouldRun q")
    case True
    with running_count_methods(1) [of q]
    have "runningCount (dequeue q) \<le> concurrent (dequeue q)"
      by (simp add: shouldRun_def)
    with "1.IH" [OF True] True show ?thesis by (subst (1 2) start_while.simps) simp
  next
    case False
    with "1.prems" show ?thesis by (subst (1 2) start_while.simps) simp
  qed
qed

text \<open>
  C2 does not hold of the code. \<^verbatim>\<open>continue\<close> frees the slot before its pacing sleep and
  calls \<^verbatim>\<open>dequeue\<close> after it without asking \<^verbatim>\<open>shouldRun\<close> again. With
  concurrency 1 and pacing 1 ms: the first task resolves at once and its slot is freed;
  during the pacing sleep a second task is enqueued and started in the free slot, and a
  third is enqueued and waits; when the pacing timer fires, the third is dequeued as well,
  and two tasks are in flight under a limit of 1. In the second run, \<^verbatim>\<open>clear()\<close> zeroes
  the count while a task is in flight, and the count is \<open>-1\<close> once that task resolves.
\<close>

theorem in_flight_exceeds_limit:
  "map_option (\<lambda>q. (runningCount q, concurrent q, suspended q))
     (run queue_example
        [CallEnqueue 10, Settle 0 (Fulfilled 7), CallEnqueue 11, CallEnqueue 12,
         Tick 1, Timeout 0])
   = Some (2, 1,
           [AwaitDequeue \<lparr>info_index = 1, info_startTime = 0, info_fn = 11\<rparr>,
            AwaitDequeue \<lparr>info_index = 2, info_startTime = 1, info_fn = 12\<rparr>])
   \<and> map_option runningCount
       (run queue_example [CallEnqueue 10, CallClear, Settle 0 (Fulfilled 7)]) = Some (- 1)"
  by code_simp

section \<open>Clearing\<close>

text \<open>
  C5, as stated, fails: \<^verbatim>\<open>clear()\<close> does not reset the auto-start flag. After
  \<^verbatim>\<open>stop()\<close> and \<^verbatim>\<open>clear()\<close>, an enqueue only appends and announces the task,
  where on a freshly constructed scheduler it starts the scheduler and dequeues the task.
  Nor does it cancel what is in flight: a task started before \<^verbatim>\<open>clear()\<close> still
  resolves after it, and takes the in-flight count of the cleared scheduler to \<open>-1\<close>.
\<close>

theorem clear_resets_counterexample:
  "emitted (enqueue (clear (stop (constructor None))) 10 :: (nat, nat) Queue)
     = [Stop, Enqueue \<lparr>item_index = 0, item_fn = 10\<rparr>]
   \<and> emitted (enqueue (constructor None) 10 :: (nat, nat) Queue)
     = [Enqueue \<lparr>item_index = 0, item_fn = 10\<rparr>, Start, Dequeue info_example]
   \<and> \<not> started (enqueue (clear (stop (constructor None))) 10 :: (nat, nat) Queue)
   \<and> started (enqueue (constructor None) 10 :: (nat, nat) Queue)
   \<and> map_option (\<lambda>q. (runningCount q, drop 3 (emitted q)))
       (run (constructor None :: (nat, nat) Queue)
          [CallEnqueue 10, CallClear, Settle 0 (Fulfilled 7)])
     = Some (- 1, [Resolve 7])"
  by code_simp

text \<open>
  C5, amended. In every state reached from the constructor, also mid-run, \<^verbatim>\<open>clear()\<close>
  empties the pending queue and both completion buffers, and resets the sequence number,
  the completion cursor and the in-flight count to 0 and the running state to false, so
  that size is 0 and isEmpty is true. The result is the freshly constructed scheduler
  except for the auto-start flag, which keeps the value the last \<^verbatim>\<open>start\<close> or
  \<^verbatim>\<open>stop\<close> gave it, and for what is outside the class's reset: the calls still
  suspended on in-flight tasks, the notifications already emitted, the clock and what the
  factories will do. A following enqueue announces queue position 0 and, when the
  auto-start flag is set and the limit is positive, starts the scheduler and dequeues the
  task with sequence number 0, after which the task is in flight or, if its factory throws
  at once, its failure is handled; otherwise the task waits in the queue.
\<close>

theorem clear_resets:
  assumes "run (constructor options) as = Some q"
  shows "queue (clear q) = [] \<and> resolveObject (clear q) = [] \<and> rejectObject (clear q) = []
         \<and> index (clear q) = 0 \<and> completed (clear q) = 0 \<and> runningCount (clear q) = 0
         \<and> \<not> started (clear q) \<and> size_q (clear q) = 0 \<and> isEmpty (clear q)
         \<and> clear q = (constructor options)
                        \<lparr>startOnAdd := startOnAdd q, emitted := emitted q,
                         suspended := suspended q, now := now q,
                         factory_throws := factory_throws q\<rparr>
         \<and> enqueue (clear q) promise =
             (if startOnAdd q \<and> 0 < concurrent q
              then (let inputInfo =
                          \<lparr>info_index = 0, info_startTime = now q, info_fn = promise\<rparr>;
                        q4 = (clear q)
                               \<lparr>runningCount := 1, index := 1, isRunning := True,
                                emitted := emitted q @
                                  [Enqueue \<lparr>item_index = 0, item_fn = promise\<rparr>, Start,
                                   Dequeue inputInfo],
                                factory_throws := tl (factory_throws q)\<rparr>
                    in case invoke_throws q of
                         None \<Rightarrow> q4\<lparr>suspended := suspended q @ [AwaitDequeue inputInfo]\<rparr>
                       | Some err \<Rightarrow> handleRejection q4 err inputInfo 0)
              else (clear q)
                     \<lparr>queue := [promise],
                      emitted := emitted q @ [Enqueue \<lparr>item_index = 0, item_fn = promise\<rparr>]\<rparr>)"
proof -
  have f: "queue (clear q) = [] \<and> resolveObject (clear q) = [] \<and> rejectObject (clear q) = []
         \<and> index (clear q) = 0 \<and> completed (clear q) = 0 \<and> runningCount (clear q) = 0
         \<and> \<not> started (clear q) \<and> size_q (clear q) = 0 \<and> isEmpty (clear q)"
    by (simp add: clear_def started_def size_q_def isEmpty_def)
  from config_run [OF assms] have "config q = config (constructor options :: ('a, 'b) Queue)" .
  then have c: "clear q = (constructor options)
                        \<lparr>startOnAdd := startOnAdd q, emitted := emitted q,
                         suspended := suspended q, now := now q,
                         factory_throws := factory_throws q\<rparr>"
    by (simp add: clear_def config_def constructor_def)
  let ?q2 = "(clear q)\<lparr>queue := [promise],
               emitted := emitted q @ [Enqueue \<lparr>item_index = 0, item_fn = promise\<rparr>]\<rparr>"
  have e: "enqueue (clear q) promise =
             (if 0 < concurrent q \<and> startOnAdd q then start ?q2 else ?q2)"
    by (simp add: enqueue_def Let_def emit_def clear_def shouldRun_def isEmpty_def size_q_def)
  let ?q3 = "emit (?q2\<lparr>isRunning := True, startOnAdd := True\<rparr>) Start"
  have s: "0 < concurrent q \<Longrightarrow> start ?q2 = dequeue ?q3"
    unfolding start_def
    by (rule start_while_single [where promise = promise]) (simp_all add: emit_def clear_def)
  let ?i = "\<lparr>info_index = 0, info_startTime = now q, info_fn = promise\<rparr>"
  let ?q4 = "(clear q)
               \<lparr>runningCount := 1, index := 1, isRunning := True,
                emitted := emitted q @
                  [Enqueue \<lparr>item_index = 0, item_fn = promise\<rparr>, Start, Dequeue ?i],
                factory_throws := tl (factory_throws q)\<rparr>"
  have q3: "queue ?q3 = promise # []" by (simp add: emit_def)
  have sh: "shifted ?q3 promise [] = ?q4" if "startOnAdd q"
    using that by (simp add: shifted_def next_info_def emit_def clear_def)
  have ni: "next_info ?q3 promise = ?i" by (simp add: next_info_def emit_def clear_def)
  have it: "invoke_throws ?q3 = invoke_throws q"
    by (simp add: invoke_throws_def emit_def clear_def)
  have d: "dequeue ?q3 =
             (case invoke_throws q of
                None \<Rightarrow> ?q4\<lparr>suspended := suspended q @ [AwaitDequeue ?i]\<rparr>
              | Some err \<Rightarrow> handleRejection ?q4 err ?i 0)"
    if "startOnAdd q"
    unfolding dequeue_Cons [OF q3] sh [OF that] ni it
    by (cases "invoke_throws q") (simp_all add: await_def clear_def)
  from e s d have "enqueue (clear q) promise =
             (if startOnAdd q \<and> 0 < concurrent q
              then (case invoke_throws q of
                      None \<Rightarrow> ?q4\<lparr>suspended := suspended q @ [AwaitDequeue ?i]\<rparr>
                    | Some err \<Rightarrow> handleRejection ?q4 err ?i 0)
              else ?q2)"
    by simp
  with f c show ?thesis unfolding Let_def by blast
qed

text \<open>
  Concurrency 1, one task in flight and one pending: after \<^verbatim>\<open>clear()\<close> the next task
  enqueued is dequeued with sequence number 0.
\<close>

theorem clear_resets_witness:
  "\<exists>q. run (constructor (Some options_example) :: (nat, nat) Queue)
          [CallEnqueue 10, CallEnqueue 11] = Some q
        \<and> size_q q = 1 \<and> started q \<and> runningCount q = 1 \<and> index q = 1
        \<and> size_q (clear q) = 0 \<and> isEmpty (clear q) \<and> \<not> started (clear q)
        \<and> runningCount (clear q) = 0
        \<and> emitted (enqueue (clear q) 12) =
            emitted q @ [Enqueue \<lparr>item_index = 0, item_fn = 12\<rparr>, Start,
                         Dequeue \<lparr>info_index = 0, info_startTime = 0, info_fn = 12\<rparr>]
        \<and> index (enqueue (clear q) 12) = 1"
proof -
  let ?as = "[CallEnqueue 10, CallEnqueue 11] :: (nat, nat) Action list"
  let ?init = "constructor (Some options_example) :: (nat, nat) Queue"
  have v: "map_option (\<lambda>q. (size_q q, started q, runningCount q, index q, startOnAdd q,
                              concurrent q, now q, invoke_throws q)) (run ?init ?as) =
     Some (1, True, 1, 1, True, 1, 0, None)"
    by code_simp
  then obtain q where q: "run ?init ?as = Some q" by auto
  with v have p: "size_q q = 1 \<and> started q \<and> runningCount q = 1 \<and> index q = 1
      \<and> startOnAdd q \<and> concurrent q = 1 \<and> now q = 0" and it: "invoke_throws q = None"
    by simp_all
  from p have cond: "startOnAdd q \<and> 0 < concurrent q" by simp
  note t = clear_resets [OF q, of 12, unfolded if_P [OF cond] it Let_def option.case]
  from t have f: "size_q (clear q) = 0 \<and> isEmpty (clear q) \<and> \<not> started (clear q)
        \<and> runningCount (clear q) = 0"
    by blast
  from t have "enqueue (clear q) 12 =
      (clear q)
        \<lparr>runningCount := 1, index := 1, isRunning := True,
         emitted := emitted q @
           [Enqueue \<lparr>item_index = 0, item_fn = 12\<rparr>, Start,
            Dequeue \<lparr>info_index = 0, info_startTime = now q, info_fn = 12\<rparr>],
         factory_throws := tl (factory_throws q),
         suspended := suspended q @
           [AwaitDequeue \<lparr>info_index = 0, info_startTime = now q, info_fn = 12\<rparr>]\<rparr>"
    by blast
  with p have "emitted (enqueue (clear q) 12) =
            emitted q @ [Enqueue \<lparr>item_index = 0, item_fn = 12\<rparr>, Start,
                         Dequeue \<lparr>info_index = 0, info_startTime = 0, info_fn = 12\<rparr>]
        \<and> index (enqueue (clear q) 12) = 1"
    by simp
  with q p f show ?thesis by blast
qed

section \<open>The order guarantee\<close>

text \<open>
  The resolve notification carries the value only. To speak of the sequence numbers behind
  the values of a trace, the value a task resolves with is named by its sequence number:
  a run is tagged by \<open>val\<close> when every promise that fulfils does so with \<open>val\<close> of the
  sequence number of the task it belongs to. As long as no two tasks in flight share a
  sequence number, every run is tagged by some \<open>val\<close>.
\<close>

fun resolves :: "('v, 'e) QueueEvent list \<Rightarrow> 'v list" where
  "resolves [] = []"
| "resolves (Resolve res # evs) = res # resolves evs"
| "resolves (ev # evs) = resolves evs"

definition tagged_action :: "(nat \<Rightarrow> 'v) \<Rightarrow> ('v, 'e) Queue \<Rightarrow> ('v, 'e) Action \<Rightarrow> bool" where
  "tagged_action val q a =
     (case a of
        Settle n (Fulfilled res) \<Rightarrow>
          (if n < length (suspended q) then
             (case suspended q ! n of
                AwaitDequeue inputInfo \<Rightarrow> res = val (info_index inputInfo)
              | AwaitRetry inputInfo retryCount \<Rightarrow> res = val (info_index inputInfo)
              | _ \<Rightarrow> True)
           else True)
      | _ \<Rightarrow> True)"

fun tagged_run :: "(nat \<Rightarrow> 'v) \<Rightarrow> ('v, 'e) Queue \<Rightarrow> ('v, 'e) Action list \<Rightarrow> bool" where
  "tagged_run val q [] = True"
| "tagged_run val q (a # as) =
     (tagged_action val q a
      \<and> (case step q a of None \<Rightarrow> True | Some q' \<Rightarrow> tagged_run val q' as))"

text \<open>The values the drain emits at cursor position \<open>k\<close>: one if \<open>k\<close> resolved, none otherwise.\<close>

definition resolved_at :: "(nat \<times> 'v \<times> InputInfo) list \<Rightarrow> nat \<Rightarrow> 'v list" where
  "resolved_at ro k = (case map_of ro k of Some r \<Rightarrow> [fst r] | None \<Rightarrow> [])"

text \<open>
  The task a suspended call is working on, with the attempt count its failure would be
  handled under: 0 in \<^verbatim>\<open>dequeue\<close>, \<^verbatim>\<open>retryCount + 1\<close> in \<^verbatim>\<open>attemptRetry\<close>.
\<close>

definition in_flight :: "('v, 'e) Queue \<Rightarrow> nat \<Rightarrow> InputInfo \<Rightarrow> nat \<Rightarrow> bool" where
  "in_flight q n inputInfo retryCount =
     (n < length (suspended q)
      \<and> (case suspended q ! n of
            AwaitDequeue i \<Rightarrow> i = inputInfo \<and> retryCount = 0
          | AwaitRetry i r \<Rightarrow> i = inputInfo \<and> retryCount = r + 1
          | _ \<Rightarrow> False))"

text \<open>
  The part of the state the order depends on, and what holds of it throughout a stretch of
  a run that started with the cursor at \<open>c0\<close> and the resolved values \<open>vs0\<close>: the buffered
  values are tagged, nothing is buffered at the cursor, and the values resolved since are
  those of an increasing list of sequence numbers between \<open>c0\<close> and the cursor.
\<close>

definition order_view ::
  "('v, 'e) Queue \<Rightarrow> bool \<times> (nat \<times> 'v \<times> InputInfo) list \<times> nat \<times> 'v list" where
  "order_view q = (guaranteeOrder q, resolveObject q, completed q, resolves (emitted q))"

definition in_order :: "(nat \<Rightarrow> 'v) \<Rightarrow> nat \<Rightarrow> 'v list \<Rightarrow> nat \<Rightarrow> 'v list \<Rightarrow> bool" where
  "in_order val c0 vs0 c vs =
     (c0 \<le> c
      \<and> (\<exists>is. sorted_wrt (<) is \<and> (\<forall>i\<in>set is. c0 \<le> i \<and> i < c) \<and> vs = vs0 @ map val is))"

definition tagged :: "(nat \<Rightarrow> 'v) \<Rightarrow> (nat \<times> 'v \<times> InputInfo) list \<Rightarrow> bool" where
  "tagged val ro = (\<forall>k r. map_of ro k = Some r \<longrightarrow> fst r = val k)"

definition order_inv :: "(nat \<Rightarrow> 'v) \<Rightarrow> nat \<Rightarrow> 'v list \<Rightarrow> ('v, 'e) Queue \<Rightarrow> bool" where
  "order_inv val c0 vs0 q =
     (guaranteeOrder q \<and> tagged val (resolveObject q)
      \<and> map_of (resolveObject q) (completed q) = None
      \<and> in_order val c0 vs0 (completed q) (resolves (emitted q)))"

text \<open>Five slots and per-task rejection, to let tasks settle in any order.\<close>

definition options_ignore :: "nat QueueOptions" where
  "options_ignore =
     \<lparr> opt_interval = None, opt_concurrent = None, opt_start = None,
       opt_guaranteeOrder = None, opt_onRejection = Some IGNORE,
       opt_retryIntervals = None, opt_alwaysRetry = None, opt_retryCondition = None \<rparr>"

lemma in_order_snoc: "in_order val c0 vs0 c vs \<Longrightarrow> in_order val c0 vs0 (Suc c) (vs @ [val c])"
proof -
  assume "in_order val c0 vs0 c vs"
  then obtain "is" where l: "c0 \<le> c" and s: "sorted_wrt (<) is"
    and b: "\<forall>i\<in>set is. c0 \<le> i \<and> i < c" and e: "vs = vs0 @ map val is"
    by (auto simp: in_order_def)
  have "sorted_wrt (<) (is @ [c])" using s b by (auto simp: sorted_wrt_append)
  moreover have "\<forall>i\<in>set (is @ [c]). c0 \<le> i \<and> i < Suc c" using b l by auto
  moreover have "vs @ [val c] = vs0 @ map val (is @ [c])" using e by simp
  ultimately show ?thesis unfolding in_order_def using l by (metis le_SucI)
qed

lemma in_order_Suc: "in_order val c0 vs0 c vs \<Longrightarrow> in_order val c0 vs0 (Suc c) vs"
  by (auto simp: in_order_def less_Suc_eq)

lemma tagged_delete: "tagged val ro \<Longrightarrow> tagged val (AList.delete k ro)"
  by (auto simp: tagged_def AList.delete_conv' split: if_splits)

lemma tagged_update: "tagged val ro \<Longrightarrow> tagged val (AList.update k (val k, inputInfo) ro)"
  by (auto simp: tagged_def AList.update_conv' split: if_splits)

lemma resolves_append: "resolves (xs @ ys) = resolves xs @ resolves ys"
  by (induction xs rule: resolves.induct) auto

lemma resolves_Resolves [simp]: "resolves (map Resolve vs) = vs"
  by (induction vs) auto

lemma order_inv_view:
  "order_view q' = order_view q \<Longrightarrow> order_inv val c0 vs0 q' = order_inv val c0 vs0 q"
  by (simp add: order_view_def order_inv_def)

lemma order_view_await [simp]: "order_view (await q k) = order_view q"
  by (simp add: order_view_def await_def)

lemma order_view_unpark [simp]: "order_view (unpark q n) = order_view q"
  by (simp add: order_view_def unpark_def)

lemma order_view_invoked [simp]: "order_view (invoked q) = order_view q"
  by (simp add: order_view_def invoked_def)

lemma order_view_methods [simp]:
  "order_view (dequeue q) = order_view q"
  "order_view (rejectAndContinue q err inputInfo) = order_view q"
  "order_view (attemptRetry q ival retryCount err inputInfo) = order_view q"
  "order_view (handleRejection q err inputInfo retryCount) = order_view q"
  by (rule methods_rel [where Rel = "\<lambda>a b. order_view b = order_view a"];
      simp add: order_view_def shifted_def rejected_def fail_cases emit_def end_q_def await_def
                resolves_append)+

lemma order_view_continue [simp]: "order_view (continue q inputInfo) = order_view q"
  by (simp add: order_view_def continue_def Let_def await_def)

lemma order_view_continue_resume [simp]: "order_view (continue_resume q) = order_view q"
  by (simp add: continue_resume_def)

lemma order_view_attemptRetry_resume [simp]:
  "order_view (attemptRetry_resume q inputInfo retryCount) = order_view q"
proof -
  have "order_view (emit q (Retry inputInfo)) = order_view q"
    by (simp add: order_view_def emit_def resolves_append)
  then show ?thesis
    by (simp add: attemptRetry_resume_def Let_def split: option.splits)
qed

lemma order_view_start_while [simp]: "order_view (start_while q) = order_view q"
proof (induction q rule: start_while.induct)
  case (1 q)
  then show ?case by (subst start_while.simps) simp
qed

lemma order_view_start [simp]: "order_view (start q) = order_view q"
proof -
  have "order_view (emit (q\<lparr>isRunning := True, startOnAdd := True\<rparr>) Start) = order_view q"
    by (simp add: order_view_def emit_def resolves_append)
  then show ?thesis by (simp add: start_def)
qed

lemma order_view_stop [simp]: "order_view (stop q) = order_view q"
  by (simp add: stop_def end_q_def order_view_def emit_def resolves_append)

lemma order_view_enqueue [simp]: "order_view (enqueue q promise) = order_view q"
proof -
  have "order_view (emit (q\<lparr>queue := queue q @ [promise]\<rparr>)
          (Enqueue \<lparr>item_index = length (queue q @ [promise]) - 1, item_fn = promise\<rparr>))
        = order_view q"
    by (simp add: order_view_def emit_def resolves_append)
  then show ?thesis by (simp add: enqueue_def Let_def)
qed

text \<open>The drain: where it stops, what it emits, and that it keeps the order.\<close>

lemma attemptEmit_while_completed: "completed q \<le> completed (attemptEmit_while q)"
proof (induction q rule: attemptEmit_while.induct)
  case (1 q)
  show ?case
  proof (cases "map_of (resolveObject q) (completed q)")
    case (Some r)
    from "1.IH"(2) [OF Some] Some show ?thesis
      by (subst attemptEmit_while.simps) (simp add: emit_def)
  next
    case None
    note rn = None
    show ?thesis
    proof (cases "map_of (rejectObject q) (completed q)")
      case None
      with rn show ?thesis by (subst attemptEmit_while.simps) simp
    next
      case (Some err)
      from "1.IH"(1) [OF rn Some] rn Some show ?thesis
        by (subst attemptEmit_while.simps) simp
    qed
  qed
qed

lemma attemptEmit_while_stops:
  "map_of (resolveObject (attemptEmit_while q)) (completed (attemptEmit_while q)) = None
   \<and> map_of (rejectObject (attemptEmit_while q)) (completed (attemptEmit_while q)) = None"
proof (induction q rule: attemptEmit_while.induct)
  case (1 q)
  show ?case
  proof (cases "map_of (resolveObject q) (completed q)")
    case (Some r)
    from "1.IH"(2) [OF Some] Some show ?thesis
      by (subst (1 2 3 4) attemptEmit_while.simps) simp
  next
    case None
    note rn = None
    show ?thesis
    proof (cases "map_of (rejectObject q) (completed q)")
      case None
      with rn show ?thesis by (subst (1 2 3 4) attemptEmit_while.simps) simp
    next
      case (Some err)
      from "1.IH"(1) [OF rn Some] rn Some show ?thesis
        by (subst (1 2 3 4) attemptEmit_while.simps) simp
    qed
  qed
qed

lemma resolved_at_delete:
  "map (resolved_at (AList.delete c ro)) [Suc c..<n] = map (resolved_at ro) [Suc c..<n]"
  by (rule map_cong) (auto simp: resolved_at_def)

lemma attemptEmit_while_drains:
  "emitted (attemptEmit_while q) =
     emitted q @ map Resolve (concat (map (resolved_at (resolveObject q))
                                [completed q..<completed (attemptEmit_while q)]))"
proof (induction q rule: attemptEmit_while.induct)
  case (1 q)
  let ?c = "completed q"
  show ?case
  proof (cases "map_of (resolveObject q) ?c")
    case (Some r)
    let ?q' = "(emit q (Resolve (fst r)))
                 \<lparr>resolveObject := AList.delete ?c (resolveObject q), completed := ?c + 1\<rparr>"
    have w: "attemptEmit_while q = attemptEmit_while ?q'"
      using Some by (subst attemptEmit_while.simps) simp
    from attemptEmit_while_completed [of ?q'] have l: "?c < completed (attemptEmit_while ?q')"
      by simp
    from "1.IH"(2) [OF Some]
    have "emitted (attemptEmit_while ?q') =
            emitted q @ Resolve (fst r) #
              map Resolve (concat (map (resolved_at (resolveObject q))
                             [Suc ?c..<completed (attemptEmit_while ?q')]))"
      by (simp add: emit_def resolved_at_delete)
    moreover have "resolved_at (resolveObject q) ?c = [fst r]"
      using Some by (simp add: resolved_at_def)
    ultimately show ?thesis
      unfolding w using l by (simp add: upt_conv_Cons)
  next
    case None
    note rn = None
    show ?thesis
    proof (cases "map_of (rejectObject q) ?c")
      case None
      with rn have "attemptEmit_while q = q" by (subst attemptEmit_while.simps) simp
      then show ?thesis by simp
    next
      case (Some err)
      let ?q' = "q\<lparr>rejectObject := AList.delete ?c (rejectObject q), completed := ?c + 1\<rparr>"
      have w: "attemptEmit_while q = attemptEmit_while ?q'"
        using rn Some by (subst attemptEmit_while.simps) simp
      from attemptEmit_while_completed [of ?q'] have l: "?c < completed (attemptEmit_while ?q')"
        by simp
      from "1.IH"(1) [OF rn Some]
      have "emitted (attemptEmit_while ?q') =
              emitted q @ map Resolve (concat (map (resolved_at (resolveObject q))
                             [Suc ?c..<completed (attemptEmit_while ?q')]))"
        by simp
      moreover have "resolved_at (resolveObject q) ?c = []"
        using rn by (simp add: resolved_at_def)
      ultimately show ?thesis
        unfolding w using l by (simp add: upt_conv_Cons)
    qed
  qed
qed

lemma attemptEmit_while_skips_rejected:
  assumes "map_of (resolveObject q) (completed q) = None"
    and "map_of (rejectObject q) (completed q) \<noteq> None"
  shows "completed q < completed (attemptEmit_while q)"
proof -
  let ?q' = "q\<lparr>rejectObject := AList.delete (completed q) (rejectObject q),
               completed := completed q + 1\<rparr>"
  from assms have "attemptEmit_while q = attemptEmit_while ?q'"
    by (subst attemptEmit_while.simps) auto
  with attemptEmit_while_completed [of ?q'] show ?thesis by simp
qed

lemma order_inv_attemptEmit_while:
  assumes "guaranteeOrder q" and "tagged val (resolveObject q)"
    and "in_order val c0 vs0 (completed q) (resolves (emitted q))"
  shows "order_inv val c0 vs0 (attemptEmit_while q)"
  using assms
proof (induction q rule: attemptEmit_while.induct)
  case (1 q)
  let ?c = "completed q"
  note g = "1.prems"(1) and t = "1.prems"(2) and o = "1.prems"(3)
  show ?case
  proof (cases "map_of (resolveObject q) ?c")
    case (Some r)
    let ?q' = "(emit q (Resolve (fst r)))
                 \<lparr>resolveObject := AList.delete ?c (resolveObject q), completed := ?c + 1\<rparr>"
    from t Some have v: "fst r = val ?c" unfolding tagged_def by blast
    from in_order_snoc [OF o] v
    have "in_order val c0 vs0 (completed ?q') (resolves (emitted ?q'))"
      by (simp add: emit_def resolves_append)
    moreover from g have "guaranteeOrder ?q'" by (simp add: emit_def)
    moreover from tagged_delete [OF t] have "tagged val (resolveObject ?q')"
      by (simp add: emit_def)
    ultimately have "order_inv val c0 vs0 (attemptEmit_while ?q')"
      by (rule "1.IH"(2) [OF Some, rotated 2])
    with Some show ?thesis by (subst attemptEmit_while.simps) simp
  next
    case None
    note rn = None
    show ?thesis
    proof (cases "map_of (rejectObject q) ?c")
      case None
      with rn g t o show ?thesis
        by (subst attemptEmit_while.simps) (simp add: order_inv_def)
    next
      case (Some err)
      let ?q' = "q\<lparr>rejectObject := AList.delete ?c (rejectObject q), completed := ?c + 1\<rparr>"
      from in_order_Suc [OF o]
      have "in_order val c0 vs0 (completed ?q') (resolves (emitted ?q'))" by simp
      moreover from g have "guaranteeOrder ?q'" by simp
      moreover from t have "tagged val (resolveObject ?q')" by simp
      ultimately have "order_inv val c0 vs0 (attemptEmit_while ?q')"
        by (rule "1.IH"(1) [OF rn Some, rotated 2])
      with rn Some show ?thesis by (subst attemptEmit_while.simps) simp
    qed
  qed
qed

lemma order_inv_attemptEmit:
  assumes "order_inv val c0 vs0 q" and "res = val (info_index inputInfo)"
  shows "order_inv val c0 vs0 (attemptEmit q res inputInfo)"
proof -
  let ?q1 = "q\<lparr>resolveObject :=
               AList.update (info_index inputInfo) (res, inputInfo) (resolveObject q)\<rparr>"
  from assms have g: "guaranteeOrder ?q1" and t: "tagged val (resolveObject ?q1)"
    and o: "in_order val c0 vs0 (completed ?q1) (resolves (emitted ?q1))"
    by (simp_all add: order_inv_def tagged_update)
  from order_inv_attemptEmit_while [OF g t o] g show ?thesis
    by (simp add: attemptEmit_def order_inv_view [OF order_view_continue])
qed

lemma order_inv_unpark [simp]: "order_inv val c0 vs0 (unpark q n) = order_inv val c0 vs0 q"
  by (rule order_inv_view) simp

lemma order_inv_step:
  assumes "order_inv val c0 vs0 q" and "a \<noteq> CallClear" and "tagged_action val q a"
    and "step q a = Some q'"
  shows "order_inv val c0 vs0 q'"
proof (cases a)
  case (Settle n r)
  show ?thesis
  proof (cases r)
    case (Fulfilled res)
    with Settle assms show ?thesis
      by (auto simp: step_def settle_def tagged_action_def
               intro!: order_inv_attemptEmit
               split: if_splits Suspended.splits)
  next
    case (Rejected err)
    with Settle assms(1,4) show ?thesis
      by (auto simp: step_def settle_def order_inv_view [OF order_view_methods(4)]
               split: if_splits Suspended.splits)
  qed
next
  case (Timeout n)
  with assms(1,4) show ?thesis
    by (auto simp: step_def timeout_def order_inv_view [OF order_view_continue_resume]
                   order_inv_view [OF order_view_attemptRetry_resume]
             split: if_splits Suspended.splits)
next
  case (Tick ms)
  with assms(1,4) show ?thesis by (auto simp: step_def order_inv_def)
next
  case (Arrange throws)
  with assms(1,4) show ?thesis by (auto simp: step_def order_inv_def)
next
  case CallClear
  with assms(2) show ?thesis by simp
qed (use assms(1,4) in \<open>auto simp: step_def order_inv_view [OF order_view_enqueue]
        order_inv_view [OF order_view_start] order_inv_view [OF order_view_stop]
        order_inv_view [OF order_view_methods(1)]\<close>)

lemma order_inv_run:
  "order_inv val c0 vs0 q \<Longrightarrow> CallClear \<notin> set as \<Longrightarrow> tagged_run val q as \<Longrightarrow>
   run q as = Some q' \<Longrightarrow> order_inv val c0 vs0 q'"
proof (induction as arbitrary: q)
  case Nil
  then show ?case by simp
next
  case (Cons a as)
  from Cons.prems(4) obtain q1 where s: "step q a = Some q1" and r: "run q1 as = Some q'"
    by (auto split: option.splits)
  from Cons.prems(2) have n: "a \<noteq> CallClear" by auto
  from Cons.prems(3) s have t: "tagged_action val q a" and t': "tagged_run val q1 as" by auto
  from order_inv_step [OF Cons.prems(1) n t s] have "order_inv val c0 vs0 q1" .
  with Cons.IH [of q1] Cons.prems(2) t' r show ?case by simp
qed

text \<open>
  A per-task rejection: what \<^verbatim>\<open>handleRejection\<close> comes to, and that a sequence number
  once recorded as rejected stays recorded through the calls that follow in the same turn.
\<close>

lemma handleRejection_per_task:
  "\<not> retries q err retryCount \<and> \<not> fatal q \<longrightarrow>
   handleRejection q err inputInfo retryCount = dequeue (rejected q err inputInfo)"
  by (cases "onRejection q"; cases "retryCondition q")
     (auto simp: retries_def fatal_def wants_retry_def handleRejection.simps
                 attemptRetry.simps nullish_default_def rejectAndContinue_cases)

lemma rejectObject_methods:
  "map_of (rejectObject q) k \<noteq> None \<longrightarrow> map_of (rejectObject (dequeue q)) k \<noteq> None"
  "map_of (rejectObject q) k \<noteq> None \<longrightarrow>
     map_of (rejectObject (rejectAndContinue q err inputInfo)) k \<noteq> None"
  "map_of (rejectObject q) k \<noteq> None \<longrightarrow>
     map_of (rejectObject (attemptRetry q ival retryCount err inputInfo)) k \<noteq> None"
  "map_of (rejectObject q) k \<noteq> None \<longrightarrow>
     map_of (rejectObject (handleRejection q err inputInfo retryCount)) k \<noteq> None"
  by (rule methods_rel [where Rel = "\<lambda>a b. map_of (rejectObject a) k \<noteq> None \<longrightarrow>
                                            map_of (rejectObject b) k \<noteq> None"];
      simp add: shifted_def rejected_def fail_cases emit_def end_q_def await_def
                AList.update_conv')+

text \<open>
  The task at the cursor is rejected, and then a task with another sequence number
  fulfils: the rejection resolves nothing and leaves the cursor, and the drain of the
  fulfilment moves the cursor past the rejected position, resolving only positions
  after it.
\<close>

lemma rejected_then_drained:
  assumes g: "guaranteeOrder q"
    and c: "map_of (resolveObject q) (completed q) = None"
    and f: "in_flight q n inputInfo retryCount"
    and k: "info_index inputInfo = completed q"
    and nf: "\<not> retries q err retryCount \<and> \<not> fatal q"
  shows "\<exists>q1. step q (Settle n (Rejected err)) = Some q1
           \<and> resolves (emitted q1) = resolves (emitted q)
           \<and> completed q1 = completed q
           \<and> resolveObject q1 = resolveObject q
           \<and> map_of (rejectObject q1) (completed q) \<noteq> None
           \<and> (in_flight q1 m inputInfo' retryCount' \<and> info_index inputInfo' \<noteq> completed q \<longrightarrow>
                (\<exists>q2. step q1 (Settle m (Fulfilled res)) = Some q2
                   \<and> completed q < completed q2
                   \<and> resolves (emitted q2) =
                       resolves (emitted q) @
                         concat (map (resolved_at
                                        (AList.update (info_index inputInfo') (res, inputInfo')
                                           (resolveObject q)))
                                   [Suc (completed q)..<completed q2])))"
proof -
  let ?u = "unpark q n"
  let ?q1 = "handleRejection ?u err inputInfo retryCount"
  from f have s: "step q (Settle n (Rejected err)) = Some ?q1"
    by (auto simp: in_flight_def step_def settle_def split: Suspended.splits)
  from nf have nfu: "\<not> retries ?u err retryCount" "\<not> fatal ?u"
    by (auto simp: retries_def fatal_def wants_retry_def unpark_def)
  from nfu handleRejection_per_task [of ?u err retryCount inputInfo]
  have h: "?q1 = dequeue (rejected ?u err inputInfo)" by simp
  have v: "order_view ?q1 = order_view q" by simp
  then have r1: "resolves (emitted ?q1) = resolves (emitted q)"
    and c1: "completed ?q1 = completed q" and o1: "resolveObject ?q1 = resolveObject q"
    and g1: "guaranteeOrder ?q1 = guaranteeOrder q"
    by (simp_all add: order_view_def)
  have "map_of (rejectObject (rejected ?u err inputInfo)) (completed q) \<noteq> None"
    using k by (simp add: rejected_def AList.update_conv')
  with rejectObject_methods(1) [of "rejected ?u err inputInfo" "completed q"] h
  have j1: "map_of (rejectObject ?q1) (completed q) \<noteq> None" by simp
  have "\<exists>q2. step ?q1 (Settle m (Fulfilled res)) = Some q2
                   \<and> completed q < completed q2
                   \<and> resolves (emitted q2) =
                       resolves (emitted q) @
                         concat (map (resolved_at
                                        (AList.update (info_index inputInfo') (res, inputInfo')
                                           (resolveObject q)))
                                   [Suc (completed q)..<completed q2])"
    if f2: "in_flight ?q1 m inputInfo' retryCount'" and d: "info_index inputInfo' \<noteq> completed q"
  proof -
    let ?ro = "AList.update (info_index inputInfo') (res, inputInfo') (resolveObject q)"
    let ?x = "(unpark ?q1 m)\<lparr>resolveObject := ?ro\<rparr>"
    let ?w = "attemptEmit_while ?x"
    from f2 have s2: "step ?q1 (Settle m (Fulfilled res)) =
                        Some (attemptEmit (unpark ?q1 m) res inputInfo')"
      by (auto simp: in_flight_def step_def settle_def split: Suspended.splits)
    have a: "attemptEmit (unpark ?q1 m) res inputInfo' = continue ?w inputInfo'"
      using g g1 o1 by (simp add: attemptEmit_def unpark_def)
    have xc: "completed ?x = completed q" using c1 by (simp add: unpark_def)
    have xr: "map_of (resolveObject ?x) (completed ?x) = None"
      using c d xc by (simp add: AList.update_conv')
    have xj: "map_of (rejectObject ?x) (completed ?x) \<noteq> None"
      using j1 xc by (simp add: unpark_def)
    from attemptEmit_while_skips_rejected [OF xr xj] xc
    have l: "completed q < completed ?w" by simp
    have "resolved_at ?ro (completed q) = []"
      using c d by (simp add: resolved_at_def AList.update_conv')
    with attemptEmit_while_drains [of ?x] xc l
    have "emitted ?w = emitted ?x @
            map Resolve (concat (map (resolved_at ?ro) [Suc (completed q)..<completed ?w]))"
      by (simp add: upt_conv_Cons)
    then have "resolves (emitted ?w) = resolves (emitted q) @
            concat (map (resolved_at ?ro) [Suc (completed q)..<completed ?w])"
      using r1 by (simp add: resolves_append unpark_def)
    moreover have "order_view (continue ?w inputInfo') = order_view ?w" by simp
    then have "resolves (emitted (continue ?w inputInfo')) = resolves (emitted ?w)"
      and "completed (continue ?w inputInfo') = completed ?w"
      by (simp_all add: order_view_def)
    ultimately show ?thesis using s2 a l by simp
  qed
  with s r1 c1 o1 j1 show ?thesis by blast
qed




end
